theory Spec2Isabelle
  imports Main "HOL-Library.Sublist" "HOL-Library.AList"
begin

section \<open>Python list primitives used by the dataset loaders\<close>

text \<open>
  Python's slice \<^verbatim>\<open>xs[a:b]\<close>: a negative bound counts from the end of the list, and
  every bound is clamped to the list afterwards; the slice is empty when the lower
  bound is not below the upper one.
\<close>

definition py_bound :: "nat \<Rightarrow> int \<Rightarrow> nat" where
  "py_bound n a = (if a < 0 then nat (max (a + int n) 0) else min (nat a) n)"

definition py_slice :: "'a list \<Rightarrow> int \<Rightarrow> int \<Rightarrow> 'a list" where
  "py_slice xs a b =
     (let lo = py_bound (length xs) a; hi = py_bound (length xs) b
      in take (hi - lo) (drop lo xs))"

text \<open>
  \<^verbatim>\<open>sub in s\<close> on strings (substring test) and \<^verbatim>\<open>s.split(sep)\<close>: the separator is
  searched from the left, occurrences do not overlap, and the result has one more
  element than there are occurrences. Every call of the loaders passes a non-empty
  constant separator.
\<close>

fun py_in :: "string \<Rightarrow> string \<Rightarrow> bool" where
  "py_in sub [] = (sub = [])"
| "py_in sub (c # cs) = (prefix sub (c # cs) \<or> py_in sub cs)"

function py_split_from :: "string \<Rightarrow> string \<Rightarrow> string \<Rightarrow> string list" where
  "py_split_from sep acc s =
     (if s = [] then [acc]
      else if sep \<noteq> [] \<and> prefix sep s then acc # py_split_from sep [] (drop (length sep) s)
      else py_split_from sep (acc @ [hd s]) (tl s))"
  by pat_completeness auto
termination
  by (relation "measure (\<lambda>(sep, acc, s). length s)") auto

declare py_split_from.simps [simp del]

definition py_split :: "string \<Rightarrow> string \<Rightarrow> string list" where
  "py_split s sep = py_split_from sep [] s"

section \<open>Errors and log records\<close>

text \<open>
  Every exception the loaders can raise is a value: the built-in ones, the three
  \<^verbatim>\<open>raise Exception(name, detail)\<close> of the sources, and \<^verbatim>\<open>exit(-1)\<close>.
\<close>

datatype py_error =
    TypeError
  | IndexError
  | KeyError
  | ValueError
  | AssertionError
  | UnsupportedType "string option"
  | NodeNoKeys string
  | NonSupportedNodetype string
  | SystemExit int

text \<open>What the loaders send to the logger, by severity.\<close>

datatype log_record = LogInfo string | LogWarning string | LogError string

text \<open>A dictionary read \<^verbatim>\<open>d[k]\<close> and a list read \<^verbatim>\<open>xs[i]\<close> with a non-negative index.\<close>

definition dict_get :: "('k \<times> 'v) list \<Rightarrow> 'k \<Rightarrow> py_error + 'v" where
  "dict_get d k = (case map_of d k of None \<Rightarrow> Inl KeyError | Some v \<Rightarrow> Inr v)"

definition list_get :: "'a list \<Rightarrow> nat \<Rightarrow> py_error + 'a" where
  "list_get xs i = (if i < length xs then Inr (xs ! i) else Inl IndexError)"

text \<open>
  An element of a parsed markup document (\<^verbatim>\<open>xml.etree.ElementTree.Element\<close>): tag,
  attributes, text and children in document order.
\<close>

datatype xml =
  Element (xml_tag: string) (attrib: "(string \<times> string) list") (xml_text: "string option")
    (xml_children: "xml list")

text \<open>
  The primitives the loaders take from elsewhere: \<^verbatim>\<open>strip_key\<close> of \<^verbatim>\<open>data_utils\<close>
  (not among the sources, a function on strings), and on time stamps Python's
  \<^verbatim>\<open>float(s)\<close> (\<^verbatim>\<open>None\<close> where it raises \<^verbatim>\<open>ValueError\<close>) and \<^verbatim>\<open>x + 1.0\<close>.
\<close>

record 't prims =
  strip_key :: "string \<Rightarrow> string"
  py_float :: "string \<Rightarrow> 't option"
  add_one :: "'t \<Rightarrow> 't"

section \<open>ICSI token classification (\<^verbatim>\<open>make_word_entry\<close>)\<close>

text \<open>
  The dictionary a token is stored as. \<^verbatim>\<open>tag\<close> and \<^verbatim>\<open>text\<close> may be \<^verbatim>\<open>None\<close>. The keys
  \<^verbatim>\<open>speaker\<close>, \<^verbatim>\<open>key\<close>, \<^verbatim>\<open>start\<close> and \<^verbatim>\<open>end\<close> are absent from a fresh token; they
  are written when the dictionary of a segment's first token becomes the utterance
  of the segment. \<^typ>\<open>'t\<close> is the type of time stamps (Python floats).
\<close>

record 't entry =
  e_tag :: "string option"
  lspace :: bool
  rspace :: bool
  e_text :: "string option"
  e_speaker :: "string option"
  e_key :: "string option"
  e_start :: "'t option"
  e_end :: "'t option"

definition apostrophe :: string where
  "apostrophe = [CHR 0x27]"

definition new_entry :: "string option \<Rightarrow> string option \<Rightarrow> 't entry" where
  "new_entry word_type text =
     \<lparr>e_tag = word_type, lspace = True, rspace = True, e_text = text,
      e_speaker = None, e_key = None, e_start = None, e_end = None\<rparr>"

text \<open>
  \<^verbatim>\<open>make_word_entry(word_type, text, quote_stack)\<close> returns the entry (or \<^verbatim>\<open>None\<close>
  for a gap), the quote stack as it leaves it, and what it logged. The branches are
  in the order of the source. \<^verbatim>\<open>text[0]\<close> raises \<^verbatim>\<open>TypeError\<close> on \<^verbatim>\<open>None\<close> and
  \<^verbatim>\<open>IndexError\<close> on the empty string.
\<close>

definition redirected :: "string option \<Rightarrow> bool" where
  "redirected word_type =
     (word_type = Some ''W'' \<or> word_type = Some ''TRUNCW'' \<or> word_type = Some ''SYM''
      \<or> word_type = Some ''QUOTE'')"

function make_word_entry ::
  "string option \<Rightarrow> string option \<Rightarrow> string list
    \<Rightarrow> py_error + ('t entry option \<times> string list \<times> log_record list)" where
  "make_word_entry word_type text quote_stack =
    (if word_type = Some ''W'' \<or> word_type = Some ''TRUNCW'' then
       (case text of
          None \<Rightarrow> Inl TypeError
        | Some [] \<Rightarrow> Inl IndexError
        | Some (c # cs) \<Rightarrow>
            if [c] = apostrophe then make_word_entry (Some ''APOSS'') text quote_stack
            else Inr (Some (new_entry word_type text), quote_stack, []))
     else if word_type = Some ''ABBR'' then Inr (Some (new_entry word_type text), quote_stack, [])
     else if word_type = Some ''LET'' then Inr (Some (new_entry word_type text), quote_stack, [])
     else if word_type = Some ''CD'' then Inr (Some (new_entry word_type text), quote_stack, [])
     else if word_type = Some ''SYM'' then
       (if text = Some ''-'' then make_word_entry (Some ''HYPH'') text quote_stack
        else Inr (None, quote_stack, []))
     else if word_type = Some ''HYPH'' then
       Inr (Some ((new_entry word_type text)\<lparr>lspace := False, rspace := False\<rparr>), quote_stack, [])
     else if word_type = Some ''CM'' then
       Inr (Some ((new_entry word_type text)\<lparr>lspace := False\<rparr>), quote_stack, [])
     else if word_type = Some ''.'' then
       Inr (Some ((new_entry word_type text)\<lparr>lspace := False\<rparr>), quote_stack, [])
     else if word_type = Some ''APOSS'' then
       Inr (Some ((new_entry word_type text)\<lparr>lspace := False\<rparr>), quote_stack, [])
     else if word_type = Some ''LQUOTE'' then
       (if text = Some apostrophe then
          Inr (Some ((new_entry word_type text)
                 \<lparr>e_tag := Some ''APOSS'', lspace := False, rspace := False\<rparr>), quote_stack, [])
        else Inr (Some ((new_entry word_type text)\<lparr>rspace := False\<rparr>),
                  quote_stack @ [''LEFT''], []))
     else if word_type = Some ''RQUOTE'' then
       (if text = Some apostrophe then
          Inr (Some ((new_entry word_type text)
                 \<lparr>e_tag := Some ''APOSS'', lspace := False, rspace := False\<rparr>), quote_stack, [])
        else if quote_stack = [] then
          Inr (Some ((new_entry word_type text)\<lparr>lspace := False\<rparr>), quote_stack,
               [LogError ''Mismatched quotes. Found closing quote with no opening quote.''])
        else Inr (Some ((new_entry word_type text)\<lparr>lspace := False\<rparr>), butlast quote_stack, []))
     else if word_type = Some ''QUOTE'' then
       (if text = Some apostrophe then
          Inr (Some ((new_entry word_type text)
                 \<lparr>e_tag := Some ''APOSS'', lspace := False, rspace := False\<rparr>), quote_stack, [])
        else if quote_stack = [] then make_word_entry (Some ''LQUOTE'') text quote_stack
        else make_word_entry (Some ''RQUOTE'') text quote_stack)
     else if word_type = None then Inr (None, quote_stack, [])
     else Inl (UnsupportedType word_type))"
  by pat_completeness auto
termination
  by (relation "measure (\<lambda>(word_type, text, quote_stack). if redirected word_type then 1 else 0)")
     (auto simp: redirected_def)

declare make_word_entry.simps [simp del]

section \<open>ICSI token index and utterance assembly\<close>

text \<open>
  The per-speaker value of \<^verbatim>\<open>self.words[meeting]\<close>: the tokens in file order (a gap
  is \<^verbatim>\<open>None\<close>) and the dictionary from token key to position. The list of tokens is a
  store of mutable dictionaries: an utterance is not a copy but the dictionary of
  its first token, so it is referred to here by the position of that token.
\<close>

record 't word_index =
  words :: "'t entry option list"
  index :: "(string \<times> nat) list"

text \<open>
  The loop over the children of a speaker's word file in \<^verbatim>\<open>load_meeting_words\<close>,
  with the quote stack of the speaker, and the two assertions after it.
\<close>

definition nite_id :: string where
  "nite_id = ''{http://nite.sourceforge.net/}id''"

fun load_words_loop ::
  "xml list \<Rightarrow> 't word_index \<Rightarrow> string list \<Rightarrow> log_record list
    \<Rightarrow> py_error + ('t word_index \<times> string list \<times> log_record list)" where
  "load_words_loop [] wi quote_stack logs = Inr (wi, quote_stack, logs)"
| "load_words_loop (child # rest) wi quote_stack logs =
     (case dict_get (attrib child) nite_id of
        Inl e \<Rightarrow> Inl e
      | Inr k \<Rightarrow>
         (case make_word_entry (map_of (attrib child) ''c'') (xml_text child) quote_stack of
            Inl e \<Rightarrow> Inl e
          | Inr (word, quote_stack', logged) \<Rightarrow>
              load_words_loop rest
                \<lparr>words = words wi @ [word],
                 index = AList.update k (length (words wi @ [word]) - 1) (index wi)\<rparr>
                quote_stack' (logs @ logged)))"

definition load_speaker_words ::
  "xml \<Rightarrow> py_error + ('t word_index \<times> log_record list)" where
  "load_speaker_words root =
     (case load_words_loop (xml_children root) \<lparr>words = [], index = []\<rparr> [] [] of
        Inl e \<Rightarrow> Inl e
      | Inr (wi, quote_stack, logs) \<Rightarrow>
          if length (words wi) \<noteq> length (xml_children root) then Inl AssertionError
          else if length (index wi) \<noteq> length (xml_children root) then Inl AssertionError
          else Inr (wi, logs))"

text \<open>
  \<^verbatim>\<open>absorb_token(utterance, token)\<close> on the values of the two dictionaries. With no
  utterance yet it returns the token itself; otherwise it returns the utterance with
  the new text and right-space flag (the caller's dictionary, updated in place).
  Adding \<^verbatim>\<open>None\<close> to a string raises \<^verbatim>\<open>TypeError\<close>.
\<close>

definition absorb_token :: "'t entry option \<Rightarrow> 't entry \<Rightarrow> py_error + 't entry" where
  "absorb_token utterance token =
     (case utterance of
        None \<Rightarrow> Inr token
      | Some u \<Rightarrow>
          (let spaced = (rspace u \<and> lspace token);
               suffix = (if spaced then '' '' else [])
           in case e_text token of
                None \<Rightarrow> Inl TypeError
              | Some token_text \<Rightarrow>
                  (case e_text u of
                     None \<Rightarrow> Inl TypeError
                   | Some utterance_text \<Rightarrow>
                       Inr (u\<lparr>e_text := Some (utterance_text @ suffix @ token_text),
                              rspace := rspace token\<rparr>))))"

text \<open>
  The walk over \<^verbatim>\<open>range(start_idx, end_idx + 1)\<close> in \<^verbatim>\<open>load_meeting_utterances\<close>.
  \<^verbatim>\<open>utterance\<close> is \<^verbatim>\<open>None\<close> or the position of the token whose dictionary it is; what
  \<^verbatim>\<open>absorb_token\<close> returns is written back to that position.
\<close>

fun absorb_range ::
  "'t entry option list \<Rightarrow> nat option \<Rightarrow> nat list
    \<Rightarrow> py_error + (nat option \<times> 't entry option list)" where
  "absorb_range ws utterance [] = Inr (utterance, ws)"
| "absorb_range ws utterance (t # ts) =
     (case list_get ws t of
        Inl e \<Rightarrow> Inl e
      | Inr None \<Rightarrow> absorb_range ws utterance ts
      | Inr (Some word) \<Rightarrow>
          (case utterance of
             None \<Rightarrow> absorb_range ws (Some t) ts
           | Some f \<Rightarrow>
               (case absorb_token (ws ! f) word of
                  Inl e \<Rightarrow> Inl e
                | Inr u \<Rightarrow> absorb_range (ws[f := Some u]) (Some f) ts)))"

text \<open>
  The key range of a segment: \<^verbatim>\<open>list(seg)[0].attrib["href"].split("#")[-1]\<close>, split
  at \<^verbatim>\<open>..\<close> when it holds one (unpacking into two names raises \<^verbatim>\<open>ValueError\<close> unless
  there are exactly two parts), both keys through \<^verbatim>\<open>strip_key\<close>.
\<close>

definition key_range :: "(string \<Rightarrow> string) \<Rightarrow> string \<Rightarrow> py_error + (string \<times> string)" where
  "key_range strip word_range =
     (if py_in ''..'' word_range then
        (case py_split word_range ''..'' of
           [start_key, end_key] \<Rightarrow> Inr (strip start_key, strip end_key)
         | _ \<Rightarrow> Inl ValueError)
      else Inr (strip word_range, strip word_range))"

text \<open>
  \<^verbatim>\<open>float(s) if s else None\<close>: the empty string gives \<^verbatim>\<open>None\<close>, any other string is
  parsed.
\<close>

definition opt_float :: "'t prims \<Rightarrow> string \<Rightarrow> py_error + 't option" where
  "opt_float P s =
     (if s = [] then Inr None
      else case py_float P s of None \<Rightarrow> Inl ValueError | Some x \<Rightarrow> Inr (Some x))"

text \<open>
  What happens to an utterance after the walk: the keys \<^verbatim>\<open>speaker\<close>, \<^verbatim>\<open>key\<close>,
  \<^verbatim>\<open>start\<close>, \<^verbatim>\<open>end\<close> are written into its dictionary, a missing end becomes
  \<^verbatim>\<open>start + 1.0\<close> (\<^verbatim>\<open>TypeError\<close> when the start is missing too).
\<close>

definition stamp_utterance ::
  "'t prims \<Rightarrow> string \<Rightarrow> string \<Rightarrow> string \<Rightarrow> string \<Rightarrow> 't entry \<Rightarrow> py_error + 't entry" where
  "stamp_utterance P spk seg_id seg_start seg_end u =
     (case opt_float P seg_start of
        Inl e \<Rightarrow> Inl e
      | Inr st \<Rightarrow>
         (case opt_float P seg_end of
            Inl e \<Rightarrow> Inl e
          | Inr en \<Rightarrow>
              (let u1 = u\<lparr>e_speaker := Some spk, e_key := Some seg_id, e_start := st, e_end := en\<rparr>
               in if e_end u1 = None then
                    (case e_start u1 of
                       None \<Rightarrow> Inl TypeError
                     | Some x \<Rightarrow> Inr (u1\<lparr>e_end := Some (add_one P x)\<rparr>))
                  else Inr u1)))"

text \<open>
  One pass of the loop \<^verbatim>\<open>for seg in segs\<close>: the state is the token store and the list
  \<^verbatim>\<open>utterances[speaker]\<close> (positions of utterance dictionaries in the store).
\<close>

definition load_seg ::
  "'t prims \<Rightarrow> string \<Rightarrow> xml \<Rightarrow> 't word_index \<times> nat list
    \<Rightarrow> py_error + ('t word_index \<times> nat list)" where
  "load_seg P spk seg st =
     (let wi = fst st; utterances = snd st in
      if xml_children seg = [] then Inr st
      else
       case dict_get (attrib seg) nite_id of Inl e \<Rightarrow> Inl e | Inr seg_id \<Rightarrow>
       case dict_get (attrib seg) ''starttime'' of Inl e \<Rightarrow> Inl e | Inr seg_start \<Rightarrow>
       case dict_get (attrib seg) ''endtime'' of Inl e \<Rightarrow> Inl e | Inr seg_end \<Rightarrow>
       case dict_get (attrib (hd (xml_children seg))) ''href'' of Inl e \<Rightarrow> Inl e | Inr href \<Rightarrow>
       case key_range (strip_key P) (last (py_split href ''#'')) of
         Inl e \<Rightarrow> Inl e | Inr (start_key, end_key) \<Rightarrow>
       case dict_get (index wi) start_key of Inl e \<Rightarrow> Inl e | Inr start_idx \<Rightarrow>
       case dict_get (index wi) end_key of Inl e \<Rightarrow> Inl e | Inr end_idx \<Rightarrow>
       case absorb_range (words wi) None [start_idx..<end_idx + 1] of
         Inl e \<Rightarrow> Inl e
       | Inr (None, ws) \<Rightarrow> Inr (wi\<lparr>words := ws\<rparr>, utterances)
       | Inr (Some f, ws) \<Rightarrow>
           (case ws ! f of
              None \<Rightarrow> Inr (wi\<lparr>words := ws\<rparr>, utterances)
            | Some u \<Rightarrow>
               (case stamp_utterance P spk seg_id seg_start seg_end u of
                  Inl e \<Rightarrow> Inl e
                | Inr u' \<Rightarrow> Inr (wi\<lparr>words := ws[f := Some u']\<rparr>, utterances @ [f]))))"

fun load_segs ::
  "'t prims \<Rightarrow> string \<Rightarrow> xml list \<Rightarrow> 't word_index \<times> nat list
    \<Rightarrow> py_error + ('t word_index \<times> nat list)" where
  "load_segs P spk [] st = Inr st"
| "load_segs P spk (seg # segs) st =
     (case load_seg P spk seg st of Inl e \<Rightarrow> Inl e | Inr st' \<Rightarrow> load_segs P spk segs st')"

text \<open>
  The segments of a speaker's file: the children of the root, a child of type
  \<^verbatim>\<open>supersegment\<close> replaced by its own children.
\<close>

definition collect_segs :: "xml \<Rightarrow> xml list" where
  "collect_segs root =
     concat (map (\<lambda>child. if map_of (attrib child) ''type'' = Some ''supersegment''
                           then xml_children child else [child]) (xml_children root))"

definition load_speaker_utterances ::
  "'t prims \<Rightarrow> string \<Rightarrow> xml \<Rightarrow> 't word_index \<Rightarrow> py_error + ('t word_index \<times> nat list)" where
  "load_speaker_utterances P spk segs_root wi = load_segs P spk (collect_segs segs_root) (wi, [])"

text \<open>
  The text the specification describes for the absorb-all policy: the texts of the
  tokens one after the other, with a single space between two neighbours exactly
  when the left one allows a space on its right and the right one a space on its
  left.
\<close>

fun join_tokens :: "'t entry list \<Rightarrow> string" where
  "join_tokens [] = []"
| "join_tokens [tok] = the (e_text tok)"
| "join_tokens (tok # next_tok # rest) =
     the (e_text tok) @ (if rspace tok \<and> lspace next_tok then '' '' else [])
       @ join_tokens (next_tok # rest)"

text \<open>The non-gap tokens of a range of positions of the store.\<close>

definition tokens_in :: "'t entry option list \<Rightarrow> nat list \<Rightarrow> 't entry list" where
  "tokens_in ws ts = concat (map (\<lambda>t. case ws ! t of None \<Rightarrow> [] | Some w \<Rightarrow> [w]) ts)"

section \<open>Annotation nodes and leaf discovery\<close>

text \<open>
  Modelled from the spec: the class \<^verbatim>\<open>AnnoTreeNode\<close> lives in \<^verbatim>\<open>data_utils\<close>, which is
  not among the sources. The node carries the attributes the two loaders read and
  write (\<^verbatim>\<open>tag\<close>, \<^verbatim>\<open>path\<close>, \<^verbatim>\<open>key\<close>, \<^verbatim>\<open>keys\<close>, \<^verbatim>\<open>convo\<close>, \<^verbatim>\<open>is_leaf\<close>, \<^verbatim>\<open>composed\<close>,
  \<^verbatim>\<open>nn\<close>); a node owns its children (a strict tree). The type of utterances
  \<^typ>\<open>'u\<close> is the dialect's utterance record.
\<close>

datatype 'u AnnoTreeNode =
  AnnoTreeNode (tag: string) (path: string) (key: string) (keys: "string list")
    (convo: "'u list") (is_leaf: bool) (composed: bool) (nn: "'u AnnoTreeNode list")

text \<open>
  Modelled from the spec: a fresh \<^verbatim>\<open>AnnoTreeNode()\<close> has no children, no keys and no
  utterances (the loaders append to \<^verbatim>\<open>nn\<close> and test \<^verbatim>\<open>not node.keys\<close> on nodes they
  never assigned).
\<close>

definition new_AnnoTreeNode :: "'u AnnoTreeNode" where
  "new_AnnoTreeNode = AnnoTreeNode [] [] [] [] [] False False []"

fun node_count :: "'u AnnoTreeNode \<Rightarrow> nat" where
  "node_count (AnnoTreeNode t p k ks c l cm ch) = Suc (sum_list (map node_count ch))"

text \<open>
  \<^verbatim>\<open>discover_anno_leaves\<close> (identical in both loaders). The stack is a Python list:
  \<^verbatim>\<open>pop()\<close> takes the last element, \<^verbatim>\<open>append\<close> adds at the end.
  \<^verbatim>\<open>
    while stack:
        node = stack.pop()
        if node.is_leaf: leaves.append(node)
        for child in node.nn[::-1]: stack.append(child)
  \<close>
\<close>

definition push_all :: "'a list \<Rightarrow> 'a list \<Rightarrow> 'a list" where
  "push_all children stack = fold (\<lambda>child s. s @ [child]) children stack"

lemma push_all_append: "push_all children stack = stack @ children"
  unfolding push_all_def by (induction children arbitrary: stack) auto

lemma node_count_children:
  "sum_list (map node_count (nn node)) < node_count node"
  by (cases node) simp

function discover_loop :: "'u AnnoTreeNode list \<Rightarrow> 'u AnnoTreeNode list \<Rightarrow> 'u AnnoTreeNode list" where
  "discover_loop stack leaves =
     (if stack = [] then leaves
      else discover_loop (push_all (rev (nn (last stack))) (butlast stack))
             (if is_leaf (last stack) then leaves @ [last stack] else leaves))"
  by pat_completeness auto
termination
proof (relation "measure (\<lambda>(stack, leaves). sum_list (map node_count stack))")
  show "wf (measure (\<lambda>(stack, leaves). sum_list (map node_count stack)))"
    by simp
next
  fix stack :: "'u AnnoTreeNode list" and leaves :: "'u AnnoTreeNode list"
  assume ne: "stack \<noteq> []"
  then have split: "stack = butlast stack @ [last stack]"
    by simp
  have "sum_list (map node_count stack) =
          sum_list (map node_count (butlast stack)) + node_count (last stack)"
    by (subst split) simp
  moreover have "sum_list (map node_count (rev (nn (last stack)))) < node_count (last stack)"
    using node_count_children [of "last stack"] by (simp add: rev_map [symmetric] del: rev_map)
  ultimately show
    "((push_all (rev (nn (last stack))) (butlast stack),
        if is_leaf (last stack) then leaves @ [last stack] else leaves),
       (stack, leaves))
      \<in> measure (\<lambda>(stack, leaves). sum_list (map node_count stack))"
    by (simp add: push_all_append)
qed

declare discover_loop.simps [simp del]

definition discover_anno_leaves :: "'u AnnoTreeNode \<Rightarrow> 'u AnnoTreeNode list" where
  "discover_anno_leaves anno_root = discover_loop [anno_root] []"

text \<open>
  The reference traversal of the specification: recursive pre-order, children left to
  right, keeping the nodes flagged as leaves.
\<close>

fun preorder_leaves :: "'u AnnoTreeNode \<Rightarrow> 'u AnnoTreeNode list" where
  "preorder_leaves (AnnoTreeNode t p k ks c l cm ch) =
     (if l then [AnnoTreeNode t p k ks c l cm ch] else []) @ concat (map preorder_leaves ch)"

text \<open>The utterances of a tree in document order, by recursion on the tree.\<close>

fun flatten_convo :: "'u AnnoTreeNode \<Rightarrow> 'u list" where
  "flatten_convo (AnnoTreeNode t p k ks c l cm ch) =
     (if l then c else []) @ concat (map flatten_convo ch)"

section \<open>Transition derivation (\<^verbatim>\<open>compose_meeting_notes\<close>, both dialects)\<close>

text \<open>
  The raw transition loop of \<^verbatim>\<open>compose_meeting_notes\<close>:
  \<^verbatim>\<open>
    prev_leaf_id = 0
    for leaf_id, leaf in enumerate(anno_leaves):
        for utt in leaf.convo:
            if leaf_id != prev_leaf_id: raw.append(1); prev_leaf_id = leaf_id
            else: raw.append(0)
            notes.append(utt)
  \<close>
  The state is the pair of \<^verbatim>\<open>prev_leaf_id\<close> and the vector built so far (together
  with the notes); a leaf is given by its \<^verbatim>\<open>convo\<close> list.
\<close>

fun raw_inner :: "nat \<Rightarrow> 'u list \<Rightarrow> nat \<times> int list \<times> 'u list \<Rightarrow> nat \<times> int list \<times> 'u list" where
  "raw_inner leaf_id [] st = st"
| "raw_inner leaf_id (utt # rest) (prev_leaf_id, raw, notes) =
     (if leaf_id \<noteq> prev_leaf_id
      then raw_inner leaf_id rest (leaf_id, raw @ [1], notes @ [utt])
      else raw_inner leaf_id rest (prev_leaf_id, raw @ [0], notes @ [utt]))"

fun raw_outer :: "nat \<Rightarrow> 'u list list \<Rightarrow> nat \<times> int list \<times> 'u list \<Rightarrow> nat \<times> int list \<times> 'u list" where
  "raw_outer leaf_id [] st = st"
| "raw_outer leaf_id (leaf_convo # leaves) st =
     raw_outer (Suc leaf_id) leaves (raw_inner leaf_id leaf_convo st)"

definition raw_transitions :: "'u list list \<Rightarrow> int list" where
  "raw_transitions convos = fst (snd (raw_outer 0 convos (0, [], [])))"

definition meeting_notes :: "'u list list \<Rightarrow> 'u list" where
  "meeting_notes convos = snd (snd (raw_outer 0 convos (0, [], [])))"

text \<open>
  The smoothing loop, on a copy of the raw vector:
  \<^verbatim>\<open>
    for i, _ in enumerate(raw_transitions):
        if sum(transitions[i - MIN_SEGMENT_SIZE : i]) > 0:
            transitions[i] = 0
  \<close>
\<close>

definition smooth_step :: "int \<Rightarrow> nat \<Rightarrow> int list \<Rightarrow> int list" where
  "smooth_step M i transitions =
     (if sum_list (py_slice transitions (int i - M) (int i)) > 0
      then transitions[i := 0] else transitions)"

definition smooth :: "int \<Rightarrow> int list \<Rightarrow> int list" where
  "smooth M raw = fold (smooth_step M) [0..<length raw] raw"

text \<open>
  The minimum segment size as the comment on \<^verbatim>\<open>MIN_SEGMENT_SIZE\<close> (``Minimum allowed
  segment. Segments below this size will be appended \<dots>'') and the specification
  (``the next surviving boundary must be at least \<open>M\<close> positions after'') have it: the
  same scan from left to right over the working copy, where position \<open>i\<close> is cleared
  exactly when a surviving boundary lies fewer than \<open>M\<close> positions before it. The
  window of position \<open>i\<close> is the positions \<open>k\<close> with \<open>i - M < k < i\<close>, none of them
  negative.
\<close>

definition smooth_spec_step :: "nat \<Rightarrow> nat \<Rightarrow> int list \<Rightarrow> int list" where
  "smooth_spec_step M i transitions =
     (if sum_list (drop (Suc i - M) (take i transitions)) > 0
      then transitions[i := 0] else transitions)"

definition smooth_spec :: "nat \<Rightarrow> int list \<Rightarrow> int list" where
  "smooth_spec M raw = fold (smooth_spec_step M) [0..<length raw] raw"

text \<open>
  The owning leaf of every utterance of the flattened sequence (the position of its
  leaf in discovery order), as the specification speaks of it.
\<close>

fun owners_from :: "nat \<Rightarrow> 'u list list \<Rightarrow> nat list" where
  "owners_from k [] = []"
| "owners_from k (leaf_convo # leaves) =
     replicate (length leaf_convo) k @ owners_from (Suc k) leaves"

definition owners :: "'u list list \<Rightarrow> nat list" where
  "owners convos = owners_from 0 convos"

text \<open>The boundary marks of a sequence of owners, given the owner before it.\<close>

fun changes :: "nat \<Rightarrow> nat list \<Rightarrow> int list" where
  "changes p [] = []"
| "changes p (k # ks) = (if k \<noteq> p then 1 else 0) # changes k ks"

section \<open>Leaf discovery is the pre-order traversal\<close>

lemma discover_loop_eq:
  "discover_loop stack leaves = leaves @ concat (map preorder_leaves (rev stack))"
proof (induction stack leaves rule: discover_loop.induct)
  case (1 stack leaves)
  show ?case
  proof (cases "stack = []")
    case True
    then show ?thesis by (simp add: discover_loop.simps)
  next
    case False
    obtain t p k ks c l cm ch where node: "last stack = AnnoTreeNode t p k ks c l cm ch"
      by (cases "last stack")
    have "rev stack = rev (butlast stack @ [last stack])"
      using False by simp
    also have "\<dots> = last stack # rev (butlast stack)"
      by simp
    finally have r: "rev stack = last stack # rev (butlast stack)" .
    have rhs: "concat (map preorder_leaves (rev stack)) =
        preorder_leaves (last stack) @ concat (map preorder_leaves (rev (butlast stack)))"
      by (subst r) simp
    have "discover_loop stack leaves =
        discover_loop (push_all (rev (nn (last stack))) (butlast stack))
          (if is_leaf (last stack) then leaves @ [last stack] else leaves)"
      using False by (subst discover_loop.simps) simp
    also have "\<dots> = (if is_leaf (last stack) then leaves @ [last stack] else leaves) @
        concat (map preorder_leaves (rev (push_all (rev (nn (last stack))) (butlast stack))))"
      using False by (rule "1.IH")
    also have "\<dots> = leaves @ preorder_leaves (last stack) @
        concat (map preorder_leaves (rev (butlast stack)))"
      by (simp add: push_all_append node)
    finally show ?thesis by (simp only: rhs)
  qed
qed

lemma discover_is_preorder: "discover_anno_leaves anno_root = preorder_leaves anno_root"
  by (simp add: discover_anno_leaves_def discover_loop_eq)

lemma flatten_preorder: "concat (map convo (preorder_leaves node)) = flatten_convo node"
proof (induction node rule: preorder_leaves.induct)
  case (1 t p k ks c l cm ch)
  have "concat (map convo (concat (map preorder_leaves ch))) = concat (map flatten_convo ch)"
    using "1.IH" by (induction ch) auto
  then show ?case by simp
qed

section \<open>The raw transition vector\<close>

lemma changes_append: "changes p (xs @ ys) = changes p xs @ changes (last (p # xs)) ys"
  by (induction xs arbitrary: p) auto

lemma length_changes: "length (changes p ks) = length ks"
  by (induction ks arbitrary: p) auto

lemma changes_nth:
  "i < length ks \<Longrightarrow>
   changes p ks ! i = (if (p # ks) ! Suc i \<noteq> (p # ks) ! i then 1 else 0)"
proof (induction ks arbitrary: p i)
  case Nil
  then show ?case by simp
next
  case (Cons k ks)
  show ?case
  proof (cases i)
    case 0
    then show ?thesis by simp
  next
    case (Suc j)
    with Cons.prems have "j < length ks" by simp
    from Cons.IH [OF this, of k] Suc show ?thesis by simp
  qed
qed

lemma raw_inner_eq:
  "raw_inner k leaf_convo (p, raw, ns) =
     (last (p # replicate (length leaf_convo) k),
      raw @ changes p (replicate (length leaf_convo) k), ns @ leaf_convo)"
  by (induction leaf_convo arbitrary: p raw ns) auto

lemma last_last: "last (last (p # xs) # ys) = last (p # xs @ ys)"
proof -
  have "last ((p # xs) @ ys) = (if ys = [] then last (p # xs) else last ys)"
    by (rule last_append)
  then show ?thesis by (cases ys) auto
qed

lemma raw_outer_eq:
  "raw_outer k convos (p, raw, ns) =
     (last (p # owners_from k convos), raw @ changes p (owners_from k convos),
      ns @ concat convos)"
proof (induction convos arbitrary: k p raw ns)
  case Nil
  then show ?case by simp
next
  case (Cons c cs)
  show ?case
    by (simp add: raw_inner_eq Cons.IH changes_append last_last
          del: last.simps replicate.simps)
qed

lemma raw_transitions_changes: "raw_transitions convos = changes 0 (owners convos)"
  by (simp add: raw_transitions_def owners_def raw_outer_eq)

lemma meeting_notes_concat: "meeting_notes convos = concat convos"
  by (simp add: meeting_notes_def raw_outer_eq)

lemma length_owners_from: "length (owners_from k convos) = length (concat convos)"
  by (induction convos arbitrary: k) auto

lemma owners_from_hd:
  "convos \<noteq> [] \<Longrightarrow> hd convos \<noteq> [] \<Longrightarrow> owners_from k convos ! 0 = k"
  by (cases convos) (auto simp: nth_append)

lemma raw_transitions_general:
  assumes "\<forall>leaf_convo \<in> set convos. leaf_convo \<noteq> []"
  shows "length (raw_transitions convos) = length (concat convos) \<and>
         (raw_transitions convos \<noteq> [] \<longrightarrow> raw_transitions convos ! 0 = 0) \<and>
         (\<forall>i. 1 \<le> i \<and> i < length (concat convos) \<longrightarrow>
              raw_transitions convos ! i =
                (if owners convos ! i \<noteq> owners convos ! (i - 1) then 1 else 0))"
proof (intro conjI allI impI)
  show "length (raw_transitions convos) = length (concat convos)"
    by (simp add: raw_transitions_changes length_changes owners_def length_owners_from)
next
  assume ne: "raw_transitions convos \<noteq> []"
  then have "convos \<noteq> []"
    by (auto simp: raw_transitions_changes owners_def)
  with assms have "hd convos \<noteq> []" by simp
  with \<open>convos \<noteq> []\<close> have o0: "owners convos ! 0 = 0"
    by (simp add: owners_def owners_from_hd)
  from ne have "0 < length (owners convos)"
    by (auto simp: raw_transitions_changes)
  then show "raw_transitions convos ! 0 = 0"
    using o0 by (simp add: raw_transitions_changes changes_nth)
next
  fix i assume i: "1 \<le> i \<and> i < length (concat convos)"
  then have "i < length (owners convos)"
    by (simp add: owners_def length_owners_from)
  then have "raw_transitions convos ! i =
      (if (0 # owners convos) ! Suc i \<noteq> (0 # owners convos) ! i then 1 else 0)"
    unfolding raw_transitions_changes by (rule changes_nth)
  moreover from i obtain j where "i = Suc j" by (cases i) auto
  ultimately show "raw_transitions convos ! i =
      (if owners convos ! i \<noteq> owners convos ! (i - 1) then 1 else 0)"
    by simp
qed

text \<open>
  C4. For every annotation tree the stack traversal returns the leaves in pre-order,
  children left to right, exactly as the recursive traversal does; and the notes of
  the meeting, collected leaf by leaf in that order, are the utterances of the tree
  in document order, none missing and none moved.
\<close>

theorem discover_anno_leaves_preorder:
  "discover_anno_leaves anno_root = preorder_leaves anno_root \<and>
   meeting_notes (map convo (discover_anno_leaves anno_root)) = flatten_convo anno_root"
  by (simp add: discover_is_preorder meeting_notes_concat flatten_preorder)

section \<open>Smoothing with a minimum segment size\<close>

text \<open>
  C1. Two boundaries that survive smoothing are at least \<open>M\<close> positions apart. The
  loop misses this for the first \<open>M\<close> positions of a meeting of \<open>M\<close> or more
  utterances: there the lower bound \<open>i - M\<close> of the slice is negative, Python counts
  it from the end of the list, the window is empty and nothing is cleared. Three
  leaves of 1, 1 and 10 utterances give boundaries at positions 1 and 2, and both
  survive the smoothing with \<open>M = 10\<close>.
\<close>

theorem smooth_keeps_adjacent_boundaries:
  "raw_transitions [[0::nat], [1], [2, 3, 4, 5, 6, 7, 8, 9, 10, 11]]
     = [0, 1, 1, 0, 0, 0, 0, 0, 0, 0, 0, 0] \<and>
   smooth 10 [0, 1, 1, 0, 0, 0, 0, 0, 0, 0, 0, 0] = [0, 1, 1, 0, 0, 0, 0, 0, 0, 0, 0, 0]"
  by (simp add: raw_transitions_def smooth_def smooth_step_def py_slice_def py_bound_def upt_rec)

text \<open>
  C2. The worked example of the specification: leaves of 1, 3, 7 and 1 utterances
  give the raw vector \<open>[0,1,0,0,1,0,0,0,0,0,0,1]\<close>, and with \<open>M = 10\<close> the smoothed
  vector is to be \<open>[0,1,0,0,0,0,0,0,0,0,0,1]\<close>. The loop returns
  \<open>[0,1,0,0,1,0,0,0,0,0,0,0]\<close> instead. The boundary at index 4 survives because the
  lower bound \<open>4 - 10\<close> of the slice is negative and the window is empty. The boundary
  at index 11 is cleared because the slice \<open>[1:11]\<close> holds index 1, which is exactly
  10 positions before: a segment of exactly the minimum size is merged. The scan
  with the window of the positions fewer than \<open>M\<close> before \<open>i\<close> gives the vector of
  the example. The second departure does not need the first: with \<open>M = 3\<close> the loop
  clears the boundary at index 6 of \<open>[0,0,0,1,0,0,1,0,0,0]\<close>, three positions after
  the boundary at index 3.
\<close>

theorem smooth_example_departs:
  "raw_transitions [[0::nat], [1, 2, 3], [4, 5, 6, 7, 8, 9, 10], [11]]
     = [0, 1, 0, 0, 1, 0, 0, 0, 0, 0, 0, 1] \<and>
   smooth 10 [0, 1, 0, 0, 1, 0, 0, 0, 0, 0, 0, 1] = [0, 1, 0, 0, 1, 0, 0, 0, 0, 0, 0, 0] \<and>
   smooth_spec 10 [0, 1, 0, 0, 1, 0, 0, 0, 0, 0, 0, 1] = [0, 1, 0, 0, 0, 0, 0, 0, 0, 0, 0, 1] \<and>
   smooth 3 [0, 0, 0, 1, 0, 0, 1, 0, 0, 0] = [0, 0, 0, 1, 0, 0, 0, 0, 0, 0] \<and>
   smooth_spec 3 [0, 0, 0, 1, 0, 0, 1, 0, 0, 0] = [0, 0, 0, 1, 0, 0, 1, 0, 0, 0]"
  by (simp add: raw_transitions_def smooth_def smooth_step_def smooth_spec_def
        smooth_spec_step_def py_slice_def py_bound_def upt_rec)

section \<open>Quote handling and the first character of words\<close>

text \<open>
  C6. An ambiguous quote (type \<^verbatim>\<open>QUOTE\<close>) that is not a lone apostrophe is an opening
  quote when the stack is empty (the state is pushed, no space after) and a closing
  quote otherwise (the state is popped, no space before). A closing quote met with
  an empty stack is logged as an error and classification goes on with the entry.
  A quote of any of the three quote types whose text is a lone apostrophe becomes an
  apostrophe-suffix entry whatever the stack holds, and leaves the stack alone.
\<close>

theorem quote_classification:
  "make_word_entry (Some ''QUOTE'') text quote_stack =
     (if text = Some apostrophe then
        Inr (Some ((new_entry (Some ''QUOTE'') text)
               \<lparr>e_tag := Some ''APOSS'', lspace := False, rspace := False\<rparr>), quote_stack, [])
      else if quote_stack = [] then
        Inr (Some ((new_entry (Some ''LQUOTE'') text)\<lparr>rspace := False\<rparr>), [''LEFT''], [])
      else
        Inr (Some ((new_entry (Some ''RQUOTE'') text)\<lparr>lspace := False\<rparr>),
             butlast quote_stack, [])) \<and>
   make_word_entry (Some ''RQUOTE'') text [] =
     (if text = Some apostrophe then
        Inr (Some ((new_entry (Some ''RQUOTE'') text)
               \<lparr>e_tag := Some ''APOSS'', lspace := False, rspace := False\<rparr>), [], [])
      else
        Inr (Some ((new_entry (Some ''RQUOTE'') text)\<lparr>lspace := False\<rparr>), [],
             [LogError ''Mismatched quotes. Found closing quote with no opening quote.''])) \<and>
   make_word_entry (Some ''LQUOTE'') (Some apostrophe) quote_stack =
     Inr (Some ((new_entry (Some ''LQUOTE'') (Some apostrophe))
            \<lparr>e_tag := Some ''APOSS'', lspace := False, rspace := False\<rparr>), quote_stack, []) \<and>
   make_word_entry (Some ''RQUOTE'') (Some apostrophe) quote_stack =
     Inr (Some ((new_entry (Some ''RQUOTE'') (Some apostrophe))
            \<lparr>e_tag := Some ''APOSS'', lspace := False, rspace := False\<rparr>), quote_stack, [])"
  by (simp add: make_word_entry.simps)

text \<open>
  C10. Classification of a token typed \<^verbatim>\<open>W\<close> or \<^verbatim>\<open>TRUNCW\<close> reads the first character
  of its text before anything else: without a text it raises \<^verbatim>\<open>TypeError\<close>, with the
  empty text \<^verbatim>\<open>IndexError\<close>, and neither an entry nor a gap is returned; with a
  non-empty text it returns an entry. Nothing catches the exception: the loop over
  a speaker's word file stops with it.
\<close>

theorem word_text_first_character:
  "make_word_entry (Some ''W'') None quote_stack = Inl TypeError \<and>
   make_word_entry (Some ''W'') (Some []) quote_stack = Inl IndexError \<and>
   make_word_entry (Some ''TRUNCW'') None quote_stack = Inl TypeError \<and>
   make_word_entry (Some ''TRUNCW'') (Some []) quote_stack = Inl IndexError \<and>
   make_word_entry (Some ''W'') (Some (c # cs)) quote_stack =
     Inr (Some (if [c] = apostrophe
                then (new_entry (Some ''APOSS'') (Some (c # cs)))\<lparr>lspace := False\<rparr>
                else new_entry (Some ''W'') (Some (c # cs))), quote_stack, []) \<and>
   make_word_entry (Some ''TRUNCW'') (Some (c # cs)) quote_stack =
     Inr (Some (if [c] = apostrophe
                then (new_entry (Some ''APOSS'') (Some (c # cs)))\<lparr>lspace := False\<rparr>
                else new_entry (Some ''TRUNCW'') (Some (c # cs))), quote_stack, []) \<and>
   load_words_loop (Element tg [(nite_id, k), (''c'', ''W'')] None ch # rest) wi quote_stack logs
     = Inl TypeError \<and>
   load_words_loop (Element tg [(nite_id, k), (''c'', ''TRUNCW'')] (Some []) ch # rest) wi
       quote_stack logs
     = Inl IndexError"
  by (simp add: make_word_entry.simps dict_get_def nite_id_def)

section \<open>Absorb-all composition\<close>

text \<open>
  The text an utterance has gathered, in terms of the flag it carries: what follows
  the text of the first token.
\<close>

fun glue :: "bool \<Rightarrow> 't entry list \<Rightarrow> string" where
  "glue r [] = []"
| "glue r (w # rest) =
     (if r \<and> lspace w then '' '' else []) @ the (e_text w) @ glue (rspace w) rest"

text \<open>The position of the first non-gap token of a range, if there is one.\<close>

definition first_token :: "'t entry option list \<Rightarrow> nat list \<Rightarrow> nat option" where
  "first_token ws ts = find (\<lambda>t. ws ! t \<noteq> None) ts"

text \<open>The word file of the hyphen example: the word flag, a hyphen, the word sign.\<close>

definition flag_sign_file :: xml where
  "flag_sign_file =
     Element ''nite:root'' [] None
       [Element ''w'' [(nite_id, ''w1''), (''c'', ''W'')] (Some ''flag'') [],
        Element ''w'' [(nite_id, ''w2''), (''c'', ''HYPH'')] (Some ''-'') [],
        Element ''w'' [(nite_id, ''w3''), (''c'', ''W'')] (Some ''sign'') []]"

lemma join_tokens_glue: "join_tokens (w # rest) = the (e_text w) @ glue (rspace w) rest"
  by (induction rest arbitrary: w) auto

lemma tokens_in_Cons:
  "tokens_in ws (t # ts) = (case ws ! t of None \<Rightarrow> [] | Some w \<Rightarrow> [w]) @ tokens_in ws ts"
  by (simp add: tokens_in_def)

lemma tokens_in_update:
  "\<forall>t \<in> set ts. f \<noteq> t \<Longrightarrow> tokens_in (ws[f := x]) ts = tokens_in ws ts"
  by (induction ts) (auto simp: tokens_in_def)

lemma absorb_range_Some:
  assumes "ws ! f = Some u" "f < length ws" "e_text u = Some ut"
    and "\<forall>t \<in> set ts. f < t \<and> t < length ws"
    and "\<forall>w \<in> set (tokens_in ws ts). e_text w \<noteq> None"
  shows "absorb_range ws (Some f) ts =
           Inr (Some f, ws[f := Some (u\<lparr>e_text := Some (ut @ glue (rspace u) (tokens_in ws ts)),
                                         rspace := rspace (last (u # tokens_in ws ts))\<rparr>)])"
  using assms
proof (induction ts arbitrary: ws u ut)
  case Nil
  have "u\<lparr>e_text := Some ut, rspace := rspace u\<rparr> = u"
    using Nil.prems(3) by (cases u) simp
  moreover have "ws[f := Some u] = ws"
    using Nil.prems(1) by (metis list_update_id)
  ultimately show ?case by (simp add: tokens_in_def)
next
  case (Cons t ts)
  from Cons.prems have t: "f < t" "t < length ws" by auto
  show ?case
  proof (cases "ws ! t")
    case None
    have "absorb_range ws (Some f) ts =
           Inr (Some f, ws[f := Some (u\<lparr>e_text := Some (ut @ glue (rspace u) (tokens_in ws ts)),
                                         rspace := rspace (last (u # tokens_in ws ts))\<rparr>)])"
      using Cons.prems None by (intro Cons.IH) (auto simp: tokens_in_Cons)
    then show ?thesis using None t by (simp add: list_get_def tokens_in_Cons)
  next
    case (Some w)
    with Cons.prems obtain wt where wt: "e_text w = Some wt"
      by (auto simp: tokens_in_Cons)
    define u' where "u' = u\<lparr>e_text := Some (ut @ (if rspace u \<and> lspace w then '' '' else []) @ wt),
                              rspace := rspace w\<rparr>"
    have ab: "absorb_token (ws ! f) w = Inr u'"
      using Cons.prems(1,3) wt by (simp add: absorb_token_def u'_def)
    have neq: "\<forall>t' \<in> set ts. f \<noteq> t'" using Cons.prems(4) by auto
    have tk: "tokens_in (ws[f := Some u']) ts = tokens_in ws ts"
      using neq by (rule tokens_in_update)
    let ?ut' = "ut @ (if rspace u \<and> lspace w then '' '' else []) @ wt"
    let ?toks = "tokens_in ws ts"
    have "absorb_range (ws[f := Some u']) (Some f) ts =
           Inr (Some f, (ws[f := Some u'])[f := Some (u'\<lparr>e_text := Some (?ut' @ glue (rspace u') (tokens_in (ws[f := Some u']) ts)),
                                         rspace := rspace (last (u' # tokens_in (ws[f := Some u']) ts))\<rparr>)])"
    proof (rule Cons.IH)
      show "ws[f := Some u'] ! f = Some u'" using Cons.prems(2) by simp
      show "f < length (ws[f := Some u'])" using Cons.prems(2) by simp
      show "e_text u' = Some ?ut'"
        by (simp add: u'_def)
      show "\<forall>t\<in>set ts. f < t \<and> t < length (ws[f := Some u'])" using Cons.prems(4) by simp
      show "\<forall>w\<in>set (tokens_in (ws[f := Some u']) ts). e_text w \<noteq> None"
        using Cons.prems(5) Some by (simp add: tk tokens_in_Cons)
    qed
    then have ih: "absorb_range (ws[f := Some u']) (Some f) ts =
           Inr (Some f, ws[f := Some (u'\<lparr>e_text := Some (?ut' @ glue (rspace u') ?toks),
                                         rspace := rspace (last (u' # ?toks))\<rparr>)])"
      by (simp only: tk list_update_overwrite)
    have step: "absorb_range ws (Some f) (t # ts) = absorb_range (ws[f := Some u']) (Some f) ts"
      using Some t ab by (simp add: list_get_def)
    have toks: "tokens_in ws (t # ts) = w # ?toks"
      using Some by (simp add: tokens_in_Cons)
    have rec: "u'\<lparr>e_text := Some (?ut' @ glue (rspace u') ?toks),
                  rspace := rspace (last (u' # ?toks))\<rparr> =
               u\<lparr>e_text := Some (ut @ glue (rspace u) (w # ?toks)),
                  rspace := rspace (last (u # w # ?toks))\<rparr>"
      using wt by (cases "?toks = []") (simp_all add: u'_def)
    show ?thesis
      by (simp only: step ih toks rec)
  qed
qed

lemma absorb_range_None:
  assumes "sorted_wrt (<) ts" "\<forall>t \<in> set ts. t < length ws"
    and "\<forall>w \<in> set (tokens_in ws ts). e_text w \<noteq> None"
  shows "absorb_range ws None ts =
     Inr (case first_token ws ts of
            None \<Rightarrow> (None, ws)
          | Some f \<Rightarrow>
              (Some f, ws[f := Some ((the (ws ! f))
                  \<lparr>e_text := Some (join_tokens (tokens_in ws ts)),
                   rspace := rspace (last (tokens_in ws ts))\<rparr>)]))"
  using assms
proof (induction ts)
  case Nil
  then show ?case by (simp add: first_token_def)
next
  case (Cons t ts)
  show ?case
  proof (cases "ws ! t")
    case None
    then have tk: "tokens_in ws (t # ts) = tokens_in ws ts"
      and ft: "first_token ws (t # ts) = first_token ws ts"
      by (simp_all add: tokens_in_Cons first_token_def)
    have "absorb_range ws None (t # ts) = absorb_range ws None ts"
      using None Cons.prems(2) by (simp add: list_get_def)
    also have "\<dots> = Inr (case first_token ws ts of
            None \<Rightarrow> (None, ws)
          | Some f \<Rightarrow>
              (Some f, ws[f := Some ((the (ws ! f))
                  \<lparr>e_text := Some (join_tokens (tokens_in ws ts)),
                   rspace := rspace (last (tokens_in ws ts))\<rparr>)]))"
      using Cons.prems by (intro Cons.IH) (auto simp: tk)
    finally show ?thesis by (simp only: tk ft)
  next
    case (Some w)
    show ?thesis
    proof (cases "tokens_in ws ts = []")
      case True
      have "absorb_range ws (Some t) ts = Inr (Some t, ws[t := Some (w\<lparr>e_text := Some (the (e_text w) @ glue (rspace w) (tokens_in ws ts)),
                                         rspace := rspace (last (w # tokens_in ws ts))\<rparr>)])"
        using Cons.prems Some by (intro absorb_range_Some) (auto simp: tokens_in_Cons)
      then show ?thesis using Some Cons.prems
        by (simp add: list_get_def first_token_def tokens_in_Cons join_tokens_glue)
    next
      case False
      have "absorb_range ws (Some t) ts = Inr (Some t, ws[t := Some (w\<lparr>e_text := Some (the (e_text w) @ glue (rspace w) (tokens_in ws ts)),
                                         rspace := rspace (last (w # tokens_in ws ts))\<rparr>)])"
        using Cons.prems Some by (intro absorb_range_Some) (auto simp: tokens_in_Cons)
      then show ?thesis using Some Cons.prems False
        by (simp add: list_get_def first_token_def tokens_in_Cons join_tokens_glue)
    qed
  qed
qed

text \<open>The tokens the word file of the hyphen example is loaded as.\<close>

definition flag_sign_words :: "'t entry option list" where
  "flag_sign_words =
     [Some (new_entry (Some ''W'') (Some ''flag'')),
      Some ((new_entry (Some ''HYPH'') (Some ''-''))\<lparr>lspace := False, rspace := False\<rparr>),
      Some (new_entry (Some ''W'') (Some ''sign''))]"

text \<open>
  C7. Absorb-all composition. The walk over the positions \<open>start_idx .. end_idx\<close> of
  the token store skips the gaps; when every token of the range has a text, it ends
  with no utterance if the range holds no token, and otherwise with the dictionary
  of the first token as the utterance, whose text is the texts of the tokens of the
  range one after the other, a single space between two neighbours exactly when the
  left one has its right-space flag and the right one its left-space flag set. The
  word file holding the word flag, a hyphen and the word sign is loaded as three
  tokens, and the walk over them composes the text flag-sign.
\<close>

theorem absorb_all_composition:
  assumes "end_idx < length ws"
    and "\<forall>w \<in> set (tokens_in ws [start_idx..<end_idx + 1]). e_text w \<noteq> None"
  shows "absorb_range ws None [start_idx..<end_idx + 1] =
     Inr (case first_token ws [start_idx..<end_idx + 1] of
            None \<Rightarrow> (None, ws)
          | Some f \<Rightarrow>
              (Some f, ws[f := Some ((the (ws ! f))
                  \<lparr>e_text := Some (join_tokens (tokens_in ws [start_idx..<end_idx + 1])),
                   rspace := rspace (last (tokens_in ws [start_idx..<end_idx + 1]))\<rparr>)])) \<and>
    load_speaker_words flag_sign_file =
      Inr (\<lparr>words = flag_sign_words, index = [(''w1'', 0), (''w2'', 1), (''w3'', 2)]\<rparr>, []) \<and>
    absorb_range flag_sign_words None [0..<2 + 1] =
      Inr (Some 0, flag_sign_words
             [0 := Some ((new_entry (Some ''W'') (Some ''flag''))\<lparr>e_text := Some ''flag-sign''\<rparr>)])"
proof (intro conjI)
  show "absorb_range ws None [start_idx..<end_idx + 1] =
     Inr (case first_token ws [start_idx..<end_idx + 1] of
            None \<Rightarrow> (None, ws)
          | Some f \<Rightarrow>
              (Some f, ws[f := Some ((the (ws ! f))
                  \<lparr>e_text := Some (join_tokens (tokens_in ws [start_idx..<end_idx + 1])),
                   rspace := rspace (last (tokens_in ws [start_idx..<end_idx + 1]))\<rparr>)]))"
  proof (rule absorb_range_None)
    show "sorted_wrt (<) [start_idx..<end_idx + 1]"
      by (rule sorted_wrt_upt)
    show "\<forall>t \<in> set [start_idx..<end_idx + 1]. t < length ws"
      using assms(1) by auto
    show "\<forall>w \<in> set (tokens_in ws [start_idx..<end_idx + 1]). e_text w \<noteq> None"
      by (rule assms(2))
  qed
next
  show "load_speaker_words flag_sign_file =
      Inr (\<lparr>words = flag_sign_words, index = [(''w1'', 0), (''w2'', 1), (''w3'', 2)]\<rparr>, [])"
    by (simp add: load_speaker_words_def flag_sign_file_def flag_sign_words_def
          make_word_entry.simps dict_get_def nite_id_def apostrophe_def new_entry_def)
next
  show "absorb_range flag_sign_words None [0..<2 + 1] =
      Inr (Some 0, flag_sign_words
             [0 := Some ((new_entry (Some ''W'') (Some ''flag''))\<lparr>e_text := Some ''flag-sign''\<rparr>)])"
    by (simp add: flag_sign_words_def upt_rec list_get_def absorb_token_def new_entry_def)
qed

theorem absorb_all_composition_witness:
  "tokens_in (flag_sign_words :: unit entry option list) [1..<2 + 1] =
     [(new_entry (Some ''HYPH'') (Some ''-''))\<lparr>lspace := False, rspace := False\<rparr>,
      new_entry (Some ''W'') (Some ''sign'')] \<and>
   absorb_range (flag_sign_words :: unit entry option list) None [1..<2 + 1] =
     Inr (Some 1, flag_sign_words
            [1 := Some ((new_entry (Some ''HYPH'') (Some ''-''))
                         \<lparr>lspace := False, rspace := True, e_text := Some ''-sign''\<rparr>)])"
  using absorb_all_composition [of 2 "flag_sign_words :: unit entry option list" 1]
  by (simp add: flag_sign_words_def upt_rec tokens_in_def first_token_def new_entry_def
        list_get_def absorb_token_def)

section \<open>Resolution of utterance keys (\<^verbatim>\<open>attach_meeting_notes\<close>, ICSI)\<close>

text \<open>
  \<^verbatim>\<open>self.index[meeting]\<close>: for every speaker the dictionary from segment key to
  utterance. The loop over the keys of one leaf carries \<^verbatim>\<open>filtered_keys\<close>, \<^verbatim>\<open>convo\<close>,
  \<^verbatim>\<open>duplicate_check_list\<close> (key to the path of the leaf that claimed it last) and the
  log:
  \<^verbatim>\<open>
    speaker, utt_key = key.split(":")
    if utt_key not in self.index[meeting][speaker]: continue
    if key in duplicate_check_list: logger.warning(...)
    filtered_keys.append(key)
    duplicate_check_list[key] = leaf.path
    convo.append(self.index[meeting][speaker][utt_key])
  \<close>
\<close>

definition duplicate_warning :: "string \<Rightarrow> string \<Rightarrow> string \<Rightarrow> log_record" where
  "duplicate_warning k leaf_path previous =
     LogWarning (''Duplicate key: '' @ k @ '' '' @ leaf_path @ '' and '' @ previous)"

fun attach_keys ::
  "(string \<times> (string \<times> 'u) list) list \<Rightarrow> string \<Rightarrow> string list
    \<Rightarrow> string list \<times> 'u list \<times> (string \<times> string) list \<times> log_record list
    \<Rightarrow> py_error + (string list \<times> 'u list \<times> (string \<times> string) list \<times> log_record list)" where
  "attach_keys idx leaf_path [] st = Inr st"
| "attach_keys idx leaf_path (k # rest) (filtered_keys, cv, duplicate_check_list, logs) =
     (case py_split k '':'' of
        [spk, utt_key] \<Rightarrow>
          (case dict_get idx spk of
             Inl e \<Rightarrow> Inl e
           | Inr utts \<Rightarrow>
              (case map_of utts utt_key of
                 None \<Rightarrow> attach_keys idx leaf_path rest (filtered_keys, cv, duplicate_check_list, logs)
               | Some utt \<Rightarrow>
                   attach_keys idx leaf_path rest
                     (filtered_keys @ [k], cv @ [utt],
                      AList.update k leaf_path duplicate_check_list,
                      logs @ (case map_of duplicate_check_list k of
                                None \<Rightarrow> []
                              | Some previous \<Rightarrow> [duplicate_warning k leaf_path previous]))))
      | _ \<Rightarrow> Inl ValueError)"

text \<open>The loop over the discovered leaves; every leaf gets its filtered keys and its convo.\<close>

definition set_payload :: "string list \<Rightarrow> 'u list \<Rightarrow> 'u AnnoTreeNode \<Rightarrow> 'u AnnoTreeNode" where
  "set_payload ks cv leaf =
     AnnoTreeNode (tag leaf) (path leaf) (key leaf) ks cv (is_leaf leaf) (composed leaf) (nn leaf)"

fun attach_leaves ::
  "(string \<times> (string \<times> 'u) list) list \<Rightarrow> 'u AnnoTreeNode list
    \<Rightarrow> (string \<times> string) list \<times> log_record list
    \<Rightarrow> py_error + ('u AnnoTreeNode list \<times> (string \<times> string) list \<times> log_record list)" where
  "attach_leaves idx [] st = Inr ([], st)"
| "attach_leaves idx (leaf # leaves) (duplicate_check_list, logs) =
     (case attach_keys idx (path leaf) (keys leaf) ([], [], duplicate_check_list, logs) of
        Inl e \<Rightarrow> Inl e
      | Inr (filtered_keys, cv, duplicate_check_list', logs') \<Rightarrow>
          (case attach_leaves idx leaves (duplicate_check_list', logs') of
             Inl e \<Rightarrow> Inl e
           | Inr (leaves', st') \<Rightarrow> Inr (set_payload filtered_keys cv leaf # leaves', st')))"

definition attach_meeting_notes ::
  "(string \<times> (string \<times> 'u) list) list \<Rightarrow> 'u AnnoTreeNode
    \<Rightarrow> py_error + ('u AnnoTreeNode list \<times> (string \<times> string) list \<times> log_record list)" where
  "attach_meeting_notes idx anno_root = attach_leaves idx (discover_anno_leaves anno_root) ([], [])"

text \<open>What a run of the key loop keeps: the filtered keys and the convo.\<close>

definition kept ::
  "py_error + (string list \<times> 'u list \<times> (string \<times> string) list \<times> log_record list)
    \<Rightarrow> py_error + (string list \<times> 'u list)" where
  "kept r = map_sum id (\<lambda>(filtered_keys, cv, duplicate_check_list, logs). (filtered_keys, cv)) r"

text \<open>Two topics of one meeting that both point at the segment \<^verbatim>\<open>s1\<close> of speaker \<^verbatim>\<open>A\<close>.\<close>

definition shared_key_root :: "string AnnoTreeNode" where
  "shared_key_root =
     AnnoTreeNode ''root'' ''*'' [] [] [] False False
       [AnnoTreeNode ''topic'' ''*.0'' [] [''A:s1''] [] True False [],
        AnnoTreeNode ''topic'' ''*.1'' [] [''A:s1''] [] True False []]"

lemma attach_keys_kept:
  "kept (attach_keys idx leaf_path ks (fk, cv, dup, logs)) =
   kept (attach_keys idx leaf_path ks (fk, cv, dup', logs'))"
proof (induction ks arbitrary: fk cv dup logs dup' logs')
  case Nil
  show ?case by (simp add: kept_def)
next
  case (Cons k rest)
  show ?case
  proof (cases "\<exists>spk utt_key. py_split k '':'' = [spk, utt_key]")
    case False
    then have "attach_keys idx leaf_path (k # rest) (fk, cv, d, l) = Inl ValueError" for d l
      by (auto split: list.splits)
    then show ?thesis by simp
  next
    case True
    then obtain spk utt_key where sp: "py_split k '':'' = [spk, utt_key]" by blast
    show ?thesis
    proof (cases "dict_get idx spk")
      case (Inl e)
      then show ?thesis using sp by simp
    next
      case (Inr utts)
      show ?thesis
      proof (cases "map_of utts utt_key")
        case None
        then show ?thesis using sp Inr Cons.IH [of fk cv dup logs dup' logs'] by simp
      next
        case (Some utt)
        then show ?thesis
          using sp Inr
            Cons.IH [of "fk @ [k]" "cv @ [utt]" "AList.update k leaf_path dup"
              "logs @ (case map_of dup k of None \<Rightarrow> []
                       | Some previous \<Rightarrow> [duplicate_warning k leaf_path previous])"
              "AList.update k leaf_path dup'"
              "logs' @ (case map_of dup' k of None \<Rightarrow> []
                       | Some previous \<Rightarrow> [duplicate_warning k leaf_path previous])"]
          by simp
      qed
    qed
  qed
qed

lemma py_split_A_s1: "py_split ''A:s1'' '':'' = [''A'', ''s1'']"
  by (simp add: py_split_def py_split_from.simps)

text \<open>
  Resolution as the amended claim speaks of it. A key resolves to the utterance the
  index holds for its speaker and its segment; a key is well formed when it reads
  \<^verbatim>\<open>speaker:segment\<close> with a speaker of the index. The claims of a meeting are the
  pairs of a resolving key and the path of the leaf that lists it, in the order of
  the loop. A claim is warned about when its key was claimed before, and the warning
  names the key, the claiming leaf and the leaf of the most recent earlier claim.
\<close>

definition resolve :: "(string \<times> (string \<times> 'u) list) list \<Rightarrow> string \<Rightarrow> 'u option" where
  "resolve idx k =
     (case py_split k '':'' of
        [spk, utt_key] \<Rightarrow> (case map_of idx spk of None \<Rightarrow> None | Some utts \<Rightarrow> map_of utts utt_key)
      | _ \<Rightarrow> None)"

definition key_ok :: "(string \<times> (string \<times> 'u) list) list \<Rightarrow> string \<Rightarrow> bool" where
  "key_ok idx k =
     (case py_split k '':'' of
        [spk, utt_key] \<Rightarrow> (case map_of idx spk of None \<Rightarrow> False | Some utts \<Rightarrow> True)
      | _ \<Rightarrow> False)"

definition resolved_keys :: "(string \<times> (string \<times> 'u) list) list \<Rightarrow> string list \<Rightarrow> string list" where
  "resolved_keys idx ks = filter (\<lambda>k. resolve idx k \<noteq> None) ks"

definition resolved :: "(string \<times> (string \<times> 'u) list) list \<Rightarrow> 'u AnnoTreeNode \<Rightarrow> 'u AnnoTreeNode" where
  "resolved idx leaf =
     set_payload (resolved_keys idx (keys leaf)) (List.map_filter (resolve idx) (keys leaf)) leaf"

definition leaf_claims ::
  "(string \<times> (string \<times> 'u) list) list \<Rightarrow> 'u AnnoTreeNode \<Rightarrow> (string \<times> string) list" where
  "leaf_claims idx leaf = map (\<lambda>k. (k, path leaf)) (resolved_keys idx (keys leaf))"

definition claims ::
  "(string \<times> (string \<times> 'u) list) list \<Rightarrow> 'u AnnoTreeNode list \<Rightarrow> (string \<times> string) list" where
  "claims idx leaves = concat (map (leaf_claims idx) leaves)"

fun duplicate_warnings :: "(string \<times> string) list \<Rightarrow> (string \<times> string) list \<Rightarrow> log_record list" where
  "duplicate_warnings earlier [] = []"
| "duplicate_warnings earlier ((k, leaf_path) # later) =
     (case map_of (rev earlier) k of
        None \<Rightarrow> []
      | Some previous \<Rightarrow> [duplicate_warning k leaf_path previous])
     @ duplicate_warnings (earlier @ [(k, leaf_path)]) later"

definition record_claims :: "(string \<times> string) list \<Rightarrow> (string \<times> string) list \<Rightarrow> (string \<times> string) list" where
  "record_claims cl duplicate_check_list = fold (\<lambda>(k, leaf_path). AList.update k leaf_path) cl duplicate_check_list"

text \<open>Two leaves that share two keys; the second also lists a key that does not resolve.\<close>

definition shared_keys_index :: "(string \<times> (string \<times> string) list) list" where
  "shared_keys_index = [(''A'', [(''s1'', ''hello''), (''s2'', ''world'')])]"

definition shared_keys_first :: "string AnnoTreeNode" where
  "shared_keys_first = AnnoTreeNode ''topic'' ''*.0'' [] [''A:s1'', ''A:s2''] [] True False []"

definition shared_keys_second :: "string AnnoTreeNode" where
  "shared_keys_second = AnnoTreeNode ''topic'' ''*.1'' [] [''A:s3'', ''A:s2'', ''A:s1''] [] True False []"

definition shared_keys_root :: "string AnnoTreeNode" where
  "shared_keys_root =
     AnnoTreeNode ''root'' ''*'' [] [] [] False False [shared_keys_first, shared_keys_second]"

lemma record_claims_Nil: "record_claims [] dup = dup"
  by (simp add: record_claims_def)

lemma record_claims_Cons:
  "record_claims ((k, p) # cl) dup = record_claims cl (AList.update k p dup)"
  by (simp add: record_claims_def)

lemma record_claims_append:
  "record_claims (cl @ cl') dup = record_claims cl' (record_claims cl dup)"
  by (simp add: record_claims_def)

lemma record_claims_map:
  "map_of dup = map_of (rev earlier) \<Longrightarrow>
   map_of (record_claims cl dup) = map_of (rev (earlier @ cl))"
proof (induction cl arbitrary: dup earlier)
  case Nil
  then show ?case by (simp add: record_claims_Nil)
next
  case (Cons c cl)
  obtain k p where c: "c = (k, p)" by (cases c)
  have "map_of (AList.update k p dup) = map_of (rev (earlier @ [(k, p)]))"
    using Cons.prems by (simp add: update_conv')
  from Cons.IH [OF this] show ?case by (simp add: c record_claims_Cons)
qed

lemma duplicate_warnings_append:
  "duplicate_warnings earlier (cl @ cl') =
   duplicate_warnings earlier cl @ duplicate_warnings (earlier @ cl) cl'"
proof (induction cl arbitrary: earlier)
  case Nil
  show ?case by simp
next
  case (Cons c cl)
  obtain k p where c: "c = (k, p)" by (cases c)
  show ?case using Cons.IH [of "earlier @ [(k, p)]"] by (simp add: c)
qed

lemma resolved_keys_Cons:
  "resolved_keys idx (k # ks) =
     (if resolve idx k = None then resolved_keys idx ks else k # resolved_keys idx ks)"
  by (simp add: resolved_keys_def)

lemma map_filter_Cons:
  "List.map_filter f (x # xs) =
     (case f x of None \<Rightarrow> List.map_filter f xs | Some y \<Rightarrow> y # List.map_filter f xs)"
  by (simp add: List.map_filter_def split: option.splits)

lemma attach_keys_run:
  assumes "list_all (key_ok idx) ks" and "map_of dup = map_of (rev earlier)"
  shows "attach_keys idx p ks (fk, cv, dup, logs) =
           Inr (fk @ resolved_keys idx ks, cv @ List.map_filter (resolve idx) ks,
                record_claims (map (\<lambda>k. (k, p)) (resolved_keys idx ks)) dup,
                logs @ duplicate_warnings earlier (map (\<lambda>k. (k, p)) (resolved_keys idx ks)))"
  using assms
proof (induction ks arbitrary: fk cv dup logs earlier)
  case Nil
  show ?case by (simp add: resolved_keys_def List.map_filter_def record_claims_Nil)
next
  case (Cons k rest)
  from Cons.prems(1) have ok: "key_ok idx k" and oks: "list_all (key_ok idx) rest" by simp_all
  from ok obtain spk utt_key utts where sp: "py_split k '':'' = [spk, utt_key]"
    and ix: "map_of idx spk = Some utts"
    by (auto simp: key_ok_def split: list.splits option.splits)
  have res: "resolve idx k = map_of utts utt_key" by (simp add: resolve_def sp ix)
  have dg: "dict_get idx spk = Inr utts" by (simp add: dict_get_def ix)
  show ?case
  proof (cases "map_of utts utt_key")
    case None
    have "attach_keys idx p (k # rest) (fk, cv, dup, logs) = attach_keys idx p rest (fk, cv, dup, logs)"
      by (simp add: sp dg None)
    also note Cons.IH [OF oks Cons.prems(2)]
    finally show ?thesis by (simp add: resolved_keys_Cons map_filter_Cons res None)
  next
    case (Some utt)
    have m: "map_of (AList.update k p dup) = map_of (rev (earlier @ [(k, p)]))"
      using Cons.prems(2) by (simp add: update_conv')
    have "attach_keys idx p (k # rest) (fk, cv, dup, logs) =
            attach_keys idx p rest (fk @ [k], cv @ [utt], AList.update k p dup,
              logs @ (case map_of dup k of None \<Rightarrow> []
                      | Some previous \<Rightarrow> [duplicate_warning k p previous]))"
      by (simp add: sp dg Some)
    also note Cons.IH [OF oks m]
    finally show ?thesis
      by (simp add: resolved_keys_Cons map_filter_Cons res Some record_claims_Cons Cons.prems(2))
  qed
qed

lemma attach_leaves_run:
  assumes "list_all (key_ok idx) (concat (map keys leaves))"
    and "map_of dup = map_of (rev earlier)"
  shows "attach_leaves idx leaves (dup, logs) =
           Inr (map (resolved idx) leaves, record_claims (claims idx leaves) dup,
                logs @ duplicate_warnings earlier (claims idx leaves))"
  using assms
proof (induction leaves arbitrary: dup logs earlier)
  case Nil
  show ?case by (simp add: claims_def record_claims_Nil)
next
  case (Cons leaf leaves)
  from Cons.prems(1) have ok: "list_all (key_ok idx) (keys leaf)"
    and oks: "list_all (key_ok idx) (concat (map keys leaves))" by simp_all
  note run = attach_keys_run [OF ok Cons.prems(2), of "path leaf" "[]" "[]" logs]
  have m: "map_of (record_claims (leaf_claims idx leaf) dup) =
           map_of (rev (earlier @ leaf_claims idx leaf))"
    using Cons.prems(2) by (rule record_claims_map)
  note rest = Cons.IH [OF oks m]
  have cl: "claims idx (leaf # leaves) = leaf_claims idx leaf @ claims idx leaves"
    by (simp add: claims_def)
  show ?case
    by (simp add: run rest [unfolded leaf_claims_def] cl leaf_claims_def resolved_def
          record_claims_append duplicate_warnings_append)
qed

lemma attach_meeting_notes_run:
  assumes "list_all (key_ok idx) (concat (map keys (discover_anno_leaves anno_root)))"
  shows "attach_meeting_notes idx anno_root =
           Inr (map (resolved idx) (discover_anno_leaves anno_root),
                record_claims (claims idx (discover_anno_leaves anno_root)) [],
                duplicate_warnings [] (claims idx (discover_anno_leaves anno_root)))"
  using attach_leaves_run [OF assms, of "[]" "[]" "[]"] by (simp add: attach_meeting_notes_def)

lemma resolved_keeps:
  assumes "resolve idx k = Some u" and "k \<in> set (keys leaf)"
  shows "k \<in> set (keys (resolved idx leaf))" and "u \<in> set (convo (resolved idx leaf))"
proof -
  show "k \<in> set (keys (resolved idx leaf))"
    using assms by (cases leaf) (simp add: resolved_def set_payload_def resolved_keys_def)
  have "u \<in> set (List.map_filter (resolve idx) (keys leaf))"
    using assms by (force simp: List.map_filter_def)
  then show "u \<in> set (convo (resolved idx leaf))"
    by (cases leaf) (simp add: resolved_def set_payload_def)
qed

lemma leaf_claims_keys: "fst ` set (leaf_claims idx leaf) \<subseteq> set (keys leaf)"
  by (auto simp: leaf_claims_def resolved_keys_def)

lemma map_of_rev_const:
  "k \<in> set ks \<Longrightarrow> map_of (rev (map (\<lambda>k. (k, p)) ks)) k = Some p"
proof (induction ks)
  case Nil
  then show ?case by simp
next
  case (Cons x ks)
  show ?case
  proof (cases "k \<in> set ks")
    case True
    with Cons.IH show ?thesis by (simp add: map_of_append map_add_def)
  next
    case False
    then have "map_of (rev (map (\<lambda>k. (k, p)) ks)) k = None"
      by (auto simp: map_of_eq_None_iff image_iff)
    moreover from False Cons.prems have "k = x" by simp
    ultimately show ?thesis by (simp add: map_of_append map_add_def)
  qed
qed

lemma leaf_claims_last:
  assumes "k \<in> set (keys leaf)" and "resolve idx k \<noteq> None"
  shows "map_of (rev (leaf_claims idx leaf)) k = Some (path leaf)"
proof -
  have "k \<in> set (resolved_keys idx (keys leaf))" using assms by (simp add: resolved_keys_def)
  then show ?thesis unfolding leaf_claims_def by (rule map_of_rev_const)
qed

lemma leaf_claims_split:
  assumes "k \<in> set (keys leaf)" and "resolve idx k \<noteq> None"
  shows "\<exists>c1 c2. leaf_claims idx leaf = c1 @ (k, path leaf) # c2 \<and> k \<notin> fst ` set c1"
proof -
  have "k \<in> set (resolved_keys idx (keys leaf))" using assms by (simp add: resolved_keys_def)
  then obtain ks1 ks2 where s: "resolved_keys idx (keys leaf) = ks1 @ k # ks2" and n: "k \<notin> set ks1"
    by (auto dest: split_list_first)
  have "leaf_claims idx leaf =
          map (\<lambda>k. (k, path leaf)) ks1 @ (k, path leaf) # map (\<lambda>k. (k, path leaf)) ks2"
    by (simp add: leaf_claims_def s)
  moreover have "k \<notin> fst ` set (map (\<lambda>k. (k, path leaf)) ks1)" using n by (auto simp: image_iff)
  ultimately show ?thesis by blast
qed

lemma claims_absent:
  assumes "\<forall>leaf \<in> set mid. k \<notin> set (keys leaf)"
  shows "k \<notin> fst ` set (claims idx mid)"
  using assms leaf_claims_keys [of idx] by (fastforce simp: claims_def)

lemma map_of_absent: "k \<notin> fst ` set xs \<Longrightarrow> map_of (rev xs) k = None"
  by (simp add: map_of_eq_None_iff)

lemma later_claim_warned:
  assumes a: "k \<in> set (keys a)" and b: "k \<in> set (keys b)"
    and mid: "\<forall>leaf \<in> set mid. k \<notin> set (keys leaf)"
    and res: "resolve idx k \<noteq> None"
  shows "duplicate_warning k (path b) (path a)
           \<in> set (duplicate_warnings [] (claims idx (pre @ a # mid @ b # post)))"
proof -
  from leaf_claims_split [OF b res] obtain c1 c2
    where s: "leaf_claims idx b = c1 @ (k, path b) # c2" and n: "k \<notin> fst ` set c1" by blast
  define before where "before = claims idx pre @ leaf_claims idx a @ claims idx mid @ c1"
  have cl: "claims idx (pre @ a # mid @ b # post) = before @ (k, path b) # (c2 @ claims idx post)"
    by (simp add: claims_def s before_def)
  have "map_of (rev before) k = Some (path a)"
    using map_of_absent [OF n] map_of_absent [OF claims_absent [OF mid, of idx]]
      leaf_claims_last [OF a res]
    by (simp add: before_def map_of_append map_add_def)
  then show ?thesis
    by (simp add: cl duplicate_warnings_append)
qed

lemma shared_keys_splits:
  "py_split ''A:s1'' '':'' = [''A'', ''s1'']"
  "py_split ''A:s2'' '':'' = [''A'', ''s2'']"
  "py_split ''A:s3'' '':'' = [''A'', ''s3'']"
  by (simp_all add: py_split_def py_split_from.simps)

text \<open>
  C9. The claim has the key kept on the first claiming leaf only. In the example both
  leaves keep it.
\<close>

theorem duplicate_key_counterexample:
  "map_sum id (\<lambda>(leaves, st). map keys leaves)
      (attach_meeting_notes [(''A'', [(''s1'', ''hello'')])] shared_key_root)
     = Inr [[''A:s1''], [''A:s1'']] \<and>
   map_sum id (\<lambda>(leaves, st). map keys leaves)
      (attach_meeting_notes [(''A'', [(''s1'', ''hello'')])] shared_key_root)
     \<noteq> Inr [[''A:s1''], []]"
  by (simp add: attach_meeting_notes_def discover_is_preorder shared_key_root_def
        py_split_A_s1 dict_get_def set_payload_def)

text \<open>
  C9, as amended. A duplicate claim is never fatal and never drops a key. When every
  key of the discovered leaves reads \<^verbatim>\<open>speaker:segment\<close> with a speaker of the index,
  resolution returns: every leaf ends with all of its keys that resolve, in their
  order, and with their utterances, whatever other leaves claimed; and the log is
  the list of the warnings for the claims whose key was claimed before. So a key
  that resolves is kept, with its utterance, on every leaf that lists it; and when
  a leaf \<open>b\<close> lists a resolving key that an earlier leaf \<open>a\<close> lists, and no leaf
  between them does, a warning that names the key, \<open>b\<close> and \<open>a\<close> is in the log.
  What a leaf keeps, and whether resolution fails on a malformed key or an unknown
  speaker, does not depend on the record of earlier claims.
\<close>

theorem duplicate_key_kept_and_warned:
  "(list_all (key_ok idx) (concat (map keys (discover_anno_leaves anno_root))) \<longrightarrow>
      attach_meeting_notes idx anno_root =
        Inr (map (resolved idx) (discover_anno_leaves anno_root),
             record_claims (claims idx (discover_anno_leaves anno_root)) [],
             duplicate_warnings [] (claims idx (discover_anno_leaves anno_root)))) \<and>
   (resolve idx k = Some u \<and> k \<in> set (keys leaf) \<longrightarrow>
      k \<in> set (keys (resolved idx leaf)) \<and> u \<in> set (convo (resolved idx leaf))) \<and>
   (discover_anno_leaves anno_root = pre @ a # mid @ b # post \<and>
    k \<in> set (keys a) \<and> k \<in> set (keys b) \<and> (\<forall>between \<in> set mid. k \<notin> set (keys between)) \<and>
    resolve idx k \<noteq> None \<longrightarrow>
      duplicate_warning k (path b) (path a)
        \<in> set (duplicate_warnings [] (claims idx (discover_anno_leaves anno_root)))) \<and>
   kept (attach_keys idx leaf_path ks (fk, cv, duplicate_check_list, logs)) =
     kept (attach_keys idx leaf_path ks (fk, cv, [], []))"
proof (intro conjI impI)
  assume "list_all (key_ok idx) (concat (map keys (discover_anno_leaves anno_root)))"
  then show "attach_meeting_notes idx anno_root =
        Inr (map (resolved idx) (discover_anno_leaves anno_root),
             record_claims (claims idx (discover_anno_leaves anno_root)) [],
             duplicate_warnings [] (claims idx (discover_anno_leaves anno_root)))"
    by (rule attach_meeting_notes_run)
next
  assume "resolve idx k = Some u \<and> k \<in> set (keys leaf)"
  then show "k \<in> set (keys (resolved idx leaf))" "u \<in> set (convo (resolved idx leaf))"
    using resolved_keeps [of idx k u leaf] by simp_all
next
  assume h: "discover_anno_leaves anno_root = pre @ a # mid @ b # post \<and>
    k \<in> set (keys a) \<and> k \<in> set (keys b) \<and> (\<forall>between \<in> set mid. k \<notin> set (keys between)) \<and>
    resolve idx k \<noteq> None"
  then have "duplicate_warning k (path b) (path a)
           \<in> set (duplicate_warnings [] (claims idx (pre @ a # mid @ b # post)))"
    by (intro later_claim_warned) simp_all
  with h show "duplicate_warning k (path b) (path a)
        \<in> set (duplicate_warnings [] (claims idx (discover_anno_leaves anno_root)))"
    by simp
next
  show "kept (attach_keys idx leaf_path ks (fk, cv, duplicate_check_list, logs)) =
     kept (attach_keys idx leaf_path ks (fk, cv, [], []))"
    by (rule attach_keys_kept)
qed

theorem duplicate_key_kept_and_warned_witness:
  "attach_meeting_notes shared_keys_index shared_keys_root =
     Inr ([AnnoTreeNode ''topic'' ''*.0'' [] [''A:s1'', ''A:s2''] [''hello'', ''world''] True False [],
           AnnoTreeNode ''topic'' ''*.1'' [] [''A:s2'', ''A:s1''] [''world'', ''hello''] True False []],
          [(''A:s1'', ''*.1''), (''A:s2'', ''*.1'')],
          [duplicate_warning ''A:s2'' ''*.1'' ''*.0'', duplicate_warning ''A:s1'' ''*.1'' ''*.0'']) \<and>
   ''A:s2'' \<in> set (keys (resolved shared_keys_index shared_keys_first)) \<and>
   ''A:s2'' \<in> set (keys (resolved shared_keys_index shared_keys_second)) \<and>
   ''world'' \<in> set (convo (resolved shared_keys_index shared_keys_second)) \<and>
   duplicate_warning ''A:s2'' ''*.1'' ''*.0''
     \<in> set (duplicate_warnings []
          (claims shared_keys_index (discover_anno_leaves shared_keys_root)))"
  using duplicate_key_kept_and_warned
    [where idx = shared_keys_index and anno_root = shared_keys_root and k = "''A:s2''"
       and u = "''world''" and leaf = shared_keys_second and pre = "[]"
       and a = shared_keys_first and mid = "[]" and b = shared_keys_second and post = "[]"]
    duplicate_key_kept_and_warned
    [where idx = shared_keys_index and k = "''A:s2''"
       and u = "''world''" and leaf = shared_keys_first]
  by (simp add: discover_is_preorder shared_keys_root_def shared_keys_first_def
        shared_keys_second_def shared_keys_index_def key_ok_def resolve_def resolved_def
        resolved_keys_def claims_def leaf_claims_def record_claims_def set_payload_def
        shared_keys_splits List.map_filter_def duplicate_warning_def)

section \<open>Paths and the annotation index\<close>

text \<open>\<^verbatim>\<open>str(n)\<close> for a non-negative integer: its decimal digits.\<close>

definition digits :: string where
  "digits = ''0123456789''"

definition digit_char :: "nat \<Rightarrow> char" where
  "digit_char d = digits ! d"

function str_nat :: "nat \<Rightarrow> string" where
  "str_nat n = (if n < 10 then [digit_char n] else str_nat (n div 10) @ [digit_char (n mod 10)])"
  by pat_completeness auto
termination
  by (relation "measure id") auto

declare str_nat.simps [simp del]

text \<open>
  The annotation index is a dictionary from path to node; the nodes it holds are the
  nodes of the tree themselves. It is modelled by its keys in insertion order: the
  node under a path is the node of the tree that carries the path.
  \<^verbatim>\<open>register_anno_node\<close> ends the process with \<^verbatim>\<open>exit(-1)\<close> when the path is already
  a key.
\<close>

definition register_anno_node :: "string list \<Rightarrow> string \<Rightarrow> py_error + string list" where
  "register_anno_node anno_index pth =
     (if pth \<in> set anno_index then Inl (SystemExit (- 1)) else Inr (anno_index @ [pth]))"

text \<open>Assignments to single attributes of a node.\<close>

definition set_path :: "string \<Rightarrow> 'u AnnoTreeNode \<Rightarrow> 'u AnnoTreeNode" where
  "set_path p n = AnnoTreeNode (tag n) p (key n) (keys n) (convo n) (is_leaf n) (composed n) (nn n)"

definition set_tag :: "string \<Rightarrow> 'u AnnoTreeNode \<Rightarrow> 'u AnnoTreeNode" where
  "set_tag t n = AnnoTreeNode t (path n) (key n) (keys n) (convo n) (is_leaf n) (composed n) (nn n)"

definition set_is_leaf :: "bool \<Rightarrow> 'u AnnoTreeNode \<Rightarrow> 'u AnnoTreeNode" where
  "set_is_leaf l n = AnnoTreeNode (tag n) (path n) (key n) (keys n) (convo n) l (composed n) (nn n)"

definition set_keys :: "string list \<Rightarrow> 'u AnnoTreeNode \<Rightarrow> 'u AnnoTreeNode" where
  "set_keys ks n = AnnoTreeNode (tag n) (path n) (key n) ks (convo n) (is_leaf n) (composed n) (nn n)"

definition set_nn :: "'u AnnoTreeNode list \<Rightarrow> 'u AnnoTreeNode \<Rightarrow> 'u AnnoTreeNode" where
  "set_nn ch n = AnnoTreeNode (tag n) (path n) (key n) (keys n) (convo n) (is_leaf n) (composed n) ch"

section \<open>ICSI: normalisation of the annotation tree\<close>

text \<open>
  \<^verbatim>\<open>normalize_anno_tree(path, node, anno_index)\<close>. The node is given its path and
  registered; \<^verbatim>\<open>is_leaf\<close> says whether all children are utterance placeholders. The
  loop consumes the children from the front: a run of placeholders becomes the keys
  of the node itself when the node is a leaf (and the function returns), and a new
  composed topic otherwise; any other child is normalised recursively.
\<close>

definition is_utterance :: "'u AnnoTreeNode \<Rightarrow> bool" where
  "is_utterance n = (tag n = ''utterance'')"

definition composed_topic :: "string \<Rightarrow> string list \<Rightarrow> 'u AnnoTreeNode" where
  "composed_topic pth ks = AnnoTreeNode ''topic'' pth [] ks [] True True []"

lemma node_count_pos: "0 < node_count n"
  by (cases n) simp

function normalize_anno_tree ::
    "string \<Rightarrow> 'u AnnoTreeNode \<Rightarrow> string list \<Rightarrow> py_error + ('u AnnoTreeNode \<times> string list)"
  and normalize_loop ::
    "string \<Rightarrow> 'u AnnoTreeNode \<Rightarrow> 'u AnnoTreeNode list \<Rightarrow> 'u AnnoTreeNode list \<Rightarrow> nat
      \<Rightarrow> string list \<Rightarrow> py_error + ('u AnnoTreeNode \<times> string list)" where
  "normalize_anno_tree pth node anno_index =
     (case register_anno_node anno_index pth of
        Inl e \<Rightarrow> Inl e
      | Inr anno_index' \<Rightarrow>
          normalize_loop pth
            (set_is_leaf (list_all is_utterance (nn node)) (set_path pth node))
            (nn node) [] 0 anno_index')"
| "normalize_loop pth node [] normalized_nn branch_id anno_index =
     Inr (set_nn normalized_nn node, anno_index)"
| "normalize_loop pth node (child # rest) normalized_nn branch_id anno_index =
     (if is_utterance child then
        (if is_leaf node then
           Inr (set_nn [] (set_keys (map key (takeWhile is_utterance (child # rest))) node),
                anno_index)
         else
           (case register_anno_node anno_index (pth @ ''.'' @ str_nat branch_id) of
              Inl e \<Rightarrow> Inl e
            | Inr anno_index' \<Rightarrow>
                normalize_loop pth node (dropWhile is_utterance rest)
                  (normalized_nn @
                     [composed_topic (pth @ ''.'' @ str_nat branch_id)
                        (map key (takeWhile is_utterance (child # rest)))])
                  (branch_id + 1) anno_index'))
      else
        (case normalize_anno_tree (pth @ ''.'' @ str_nat branch_id) child anno_index of
           Inl e \<Rightarrow> Inl e
         | Inr (child', anno_index') \<Rightarrow>
             normalize_loop pth (set_is_leaf False node) rest (normalized_nn @ [child'])
               (branch_id + 1) anno_index'))"
  by pat_completeness auto
termination
proof (relation "measure (\<lambda>x. case x of
          Inl (pth, node, anno_index) \<Rightarrow> 2 * node_count node
        | Inr (pth, node, ch, normalized_nn, branch_id, anno_index) \<Rightarrow>
            2 * sum_list (map node_count ch) + 1)", goal_cases)
  case 1
  show ?case by simp
next
  case (2 pth node anno_index x2)
  show ?case using node_count_children [of node] by simp
next
  case (3 pth node child rest normalized_nn branch_id anno_index x2)
  have "sum_list (map node_count (dropWhile is_utterance rest)) \<le> sum_list (map node_count rest)"
    by (induction rest) auto
  then show ?case using node_count_pos [of child] by simp
next
  case (4 pth node child rest normalized_nn branch_id anno_index)
  show ?case using node_count_pos [of child] by simp
next
  case (5 pth node child rest normalized_nn branch_id anno_index x2 x y)
  show ?case using node_count_pos [of child] by simp
qed

declare normalize_anno_tree.simps [simp del]

section \<open>AMI: words, utterances and the annotation tree\<close>

text \<open>
  An AMI word (stripped text, spacing flags, times), the per-speaker token index, and
  an utterance. \<^verbatim>\<open>self.words\<close> maps a meeting to a speaker to the token index.
\<close>

record 't ami_word =
  a_text :: string
  a_lspace :: bool
  a_rspace :: bool
  a_start :: 't
  a_end :: 't

record 't ami_word_index =
  a_words :: "'t ami_word option list"
  a_index :: "(string \<times> nat) list"

record 't ami_utterance =
  u_key :: string
  u_speaker :: string
  u_meeting :: string
  u_start :: 't
  u_end :: 't
  u_text :: string
  u_composite :: "string option"

text \<open>
  What the AMI loader takes from elsewhere: \<^verbatim>\<open>strip_key\<close> and \<^verbatim>\<open>to_hhmmss\<close> of
  \<^verbatim>\<open>data_utils\<close> (here \<open>hhmmss\<close> renders a time stamp after the rounding of
  \<^verbatim>\<open>compose_utterance\<close>), the flag \<^verbatim>\<open>timed_utterances\<close> and the loaded words.
\<close>

record 't ami_env =
  ami_strip_key :: "string \<Rightarrow> string"
  hhmmss :: "'t \<Rightarrow> string"
  timed_utterances :: bool
  ami_words :: "(string \<times> (string \<times> 't ami_word_index) list) list"

definition compose_utterance :: "'t ami_env \<Rightarrow> 't ami_utterance \<Rightarrow> string" where
  "compose_utterance E utterance =
     (if timed_utterances E then
        ''['' @ hhmmss E (u_start utterance) @ ''-'' @ hhmmss E (u_end utterance)
          @ ''] Speaker '' @ u_speaker utterance @ '': '' @ u_text utterance
      else ''-'' @ u_text utterance)"

text \<open>\<^verbatim>\<open>mint_utterance\<close>: the text loop starts with \<^verbatim>\<open>rspace = False\<close>.\<close>

fun mint_text :: "bool \<Rightarrow> 't ami_word list \<Rightarrow> string" where
  "mint_text r [] = []"
| "mint_text r (w # ws) =
     (if a_lspace w \<and> r then '' '' else []) @ a_text w @ mint_text (a_rspace w) ws"

definition mint_utterance ::
  "string \<Rightarrow> string \<Rightarrow> string \<Rightarrow> 't ami_word list \<Rightarrow> py_error + 't ami_utterance" where
  "mint_utterance utt_content spk meeting utt_words =
     (if utt_words = [] then Inl IndexError
      else Inr \<lparr>u_key = utt_content, u_speaker = spk, u_meeting = meeting,
                u_start = a_start (hd utt_words), u_end = a_end (last utt_words),
                u_text = mint_text False utt_words, u_composite = None\<rparr>)"

text \<open>
  The loop over a key range in \<^verbatim>\<open>segment_to_utterances\<close>: gaps are skipped, a word
  whose text ends in sentence-final punctuation closes an utterance
  (\<^verbatim>\<open>word["text"][-1]\<close> raises \<^verbatim>\<open>IndexError\<close> on an empty text).
\<close>

definition sentence_end :: "string \<Rightarrow> bool" where
  "sentence_end s = ([last s] = ''.'' \<or> [last s] = ''!'' \<or> [last s] = ''?'')"

fun split_range ::
  "string \<Rightarrow> string \<Rightarrow> string \<Rightarrow> 't ami_word option list \<Rightarrow> nat list
    \<Rightarrow> 't ami_word list \<Rightarrow> 't ami_utterance list
    \<Rightarrow> py_error + ('t ami_word list \<times> 't ami_utterance list)" where
  "split_range utt_content spk meeting ws [] utt_words utterances = Inr (utt_words, utterances)"
| "split_range utt_content spk meeting ws (i # rest) utt_words utterances =
     (case list_get ws i of
        Inl e \<Rightarrow> Inl e
      | Inr None \<Rightarrow> split_range utt_content spk meeting ws rest utt_words utterances
      | Inr (Some word) \<Rightarrow>
          if a_text word = [] then Inl IndexError
          else if sentence_end (a_text word) then
            (case mint_utterance utt_content spk meeting (utt_words @ [word]) of
               Inl e \<Rightarrow> Inl e
             | Inr utterance \<Rightarrow>
                 split_range utt_content spk meeting ws rest [] (utterances @ [utterance]))
          else split_range utt_content spk meeting ws rest (utt_words @ [word]) utterances)"

text \<open>One segment reference of \<^verbatim>\<open>segment_to_utterances\<close>: the utterances it adds.\<close>

definition entry_utterances ::
  "'t ami_env \<Rightarrow> xml \<Rightarrow> py_error + 't ami_utterance list" where
  "entry_utterances E entry =
     (case dict_get (attrib entry) ''href'' of Inl e \<Rightarrow> Inl e | Inr href \<Rightarrow>
      case py_split href ''#'' of
        [meta, utt_content] \<Rightarrow>
          (case list_get (py_split meta ''.'') 1 of Inl e \<Rightarrow> Inl e | Inr spk \<Rightarrow>
           case dict_get (ami_words E) (hd (py_split meta ''.'')) of Inl e \<Rightarrow> Inl e | Inr by_speaker \<Rightarrow>
           case dict_get by_speaker spk of Inl e \<Rightarrow> Inl e | Inr word_index \<Rightarrow>
             if py_in ''..'' utt_content then
               (case py_split utt_content ''..'' of
                  [start_word, end_word] \<Rightarrow>
                    (case dict_get (a_index word_index) (ami_strip_key E start_word) of
                       Inl e \<Rightarrow> Inl e | Inr start_idx \<Rightarrow>
                     case dict_get (a_index word_index) (ami_strip_key E end_word) of
                       Inl e \<Rightarrow> Inl e | Inr end_idx \<Rightarrow>
                     case split_range utt_content spk (hd (py_split meta ''.''))
                            (a_words word_index) [start_idx..<end_idx + 1] [] [] of
                       Inl e \<Rightarrow> Inl e
                     | Inr (utt_words, utterances) \<Rightarrow>
                         if utt_words = [] then Inr utterances
                         else (case mint_utterance utt_content spk (hd (py_split meta ''.''))
                                      utt_words of
                                 Inl e \<Rightarrow> Inl e
                               | Inr utterance \<Rightarrow> Inr (utterances @ [utterance])))
                | _ \<Rightarrow> Inl ValueError)
             else
               (case dict_get (a_index word_index) (ami_strip_key E utt_content) of
                  Inl e \<Rightarrow> Inl e | Inr word_idx \<Rightarrow>
                case list_get (a_words word_index) word_idx of
                  Inl e \<Rightarrow> Inl e
                | Inr None \<Rightarrow> Inr []
                | Inr (Some word) \<Rightarrow>
                    Inr [\<lparr>u_key = utt_content, u_speaker = spk,
                          u_meeting = hd (py_split meta ''.''),
                          u_start = a_start word, u_end = a_end word,
                          u_text = a_text word, u_composite = None\<rparr>]))
      | _ \<Rightarrow> Inl ValueError)"

fun entries_utterances ::
  "'t ami_env \<Rightarrow> xml list \<Rightarrow> 't ami_utterance list \<Rightarrow> py_error + 't ami_utterance list" where
  "entries_utterances E [] utterances = Inr utterances"
| "entries_utterances E (entry # entries) utterances =
     (case entry_utterances E entry of
        Inl e \<Rightarrow> Inl e
      | Inr new \<Rightarrow> entries_utterances E entries (utterances @ new))"

definition segment_to_utterances ::
  "'t ami_env \<Rightarrow> xml list \<Rightarrow> py_error + (string list \<times> 't ami_utterance list)" where
  "segment_to_utterances E entries =
     (case entries_utterances E entries [] of
        Inl e \<Rightarrow> Inl e
      | Inr utterances \<Rightarrow>
          (let composed_utterances =
                 map (\<lambda>u. u\<lparr>u_composite := Some (compose_utterance E u)\<rparr>) utterances
           in Inr (map u_key composed_utterances, composed_utterances)))"

text \<open>
  \<^verbatim>\<open>build_anno(anno_index, path, xml_node)\<close> of the AMI loader and its loop over the
  children of the element. The tests on the tag of a child are substring tests, in
  the order pointer, topic, child.
\<close>

definition has_pointer :: "xml \<Rightarrow> bool" where
  "has_pointer x = py_in ''pointer'' (xml_tag x)"

definition has_topic :: "xml \<Rightarrow> bool" where
  "has_topic x = py_in ''topic'' (xml_tag x)"

definition has_child :: "xml \<Rightarrow> bool" where
  "has_child x = py_in ''child'' (xml_tag x)"

fun xml_count :: "xml \<Rightarrow> nat" where
  "xml_count (Element t a x ch) = Suc (sum_list (map xml_count ch))"

lemma xml_count_pos: "0 < xml_count x"
  by (cases x) simp

lemma xml_count_children: "sum_list (map xml_count (xml_children x)) < xml_count x"
  by (cases x) simp

definition convo_leaf ::
  "string \<Rightarrow> string list \<Rightarrow> 't ami_utterance list \<Rightarrow> 't ami_utterance AnnoTreeNode" where
  "convo_leaf pth ks cv = AnnoTreeNode ''leaf'' pth [] ks cv True False []"

function build_anno ::
    "'t ami_env \<Rightarrow> string list \<Rightarrow> string \<Rightarrow> xml
      \<Rightarrow> py_error + ('t ami_utterance AnnoTreeNode \<times> string list)"
  and build_loop ::
    "'t ami_env \<Rightarrow> string \<Rightarrow> 't ami_utterance AnnoTreeNode \<Rightarrow> xml list \<Rightarrow> nat \<Rightarrow> string list
      \<Rightarrow> py_error + ('t ami_utterance AnnoTreeNode \<times> string list)" where
  "build_anno E anno_index pth xml_node =
     (case register_anno_node anno_index pth of
        Inl e \<Rightarrow> Inl e
      | Inr anno_index' \<Rightarrow>
          (let leaf = (\<not> list_ex (\<lambda>child. xml_tag child = ''topic'') (xml_children xml_node));
               anno_node =
                 set_tag (if py_in ''root'' (xml_tag xml_node) then ''root''
                          else if leaf then ''leaf'' else ''topic'')
                   (set_is_leaf leaf (set_path pth new_AnnoTreeNode))
           in case build_loop E (xml_tag xml_node) anno_node (xml_children xml_node) 0 anno_index' of
                Inl e \<Rightarrow> Inl e
              | Inr (anno_node', anno_index'') \<Rightarrow>
                  if is_leaf anno_node' \<and> keys anno_node' = []
                  then Inl (NodeNoKeys (xml_tag xml_node))
                  else Inr (anno_node', anno_index'')))"
| "build_loop E parent_tag anno_node [] branch_id anno_index = Inr (anno_node, anno_index)"
| "build_loop E parent_tag anno_node (child # rest) branch_id anno_index =
     (if has_pointer child then build_loop E parent_tag anno_node rest branch_id anno_index
      else if has_topic child then
        (case build_anno E anno_index (path anno_node @ ''.'' @ str_nat branch_id) child of
           Inl e \<Rightarrow> Inl e
         | Inr (sub, anno_index') \<Rightarrow>
             build_loop E parent_tag (set_nn (nn anno_node @ [sub]) anno_node) rest
               (branch_id + 1) anno_index')
      else if has_child child then
        (case segment_to_utterances E (child # takeWhile has_child rest) of
           Inl e \<Rightarrow> Inl e
         | Inr (ks, cv) \<Rightarrow>
             if ks = [] then Inl (NodeNoKeys parent_tag)
             else if \<not> is_leaf anno_node then
               (case register_anno_node anno_index (path anno_node @ ''.'' @ str_nat branch_id) of
                  Inl e \<Rightarrow> Inl e
                | Inr anno_index' \<Rightarrow>
                    build_loop E parent_tag
                      (set_nn (nn anno_node
                                 @ [convo_leaf (path anno_node @ ''.'' @ str_nat branch_id) ks cv])
                         anno_node)
                      (dropWhile has_child rest) (branch_id + 1) anno_index')
             else Inr (set_payload ks cv anno_node, anno_index))
      else Inl (NonSupportedNodetype (xml_tag child)))"
  by pat_completeness auto
termination
proof (relation "measure (\<lambda>x. case x of
          Inl (E, anno_index, pth, xml_node) \<Rightarrow> 2 * xml_count xml_node
        | Inr (E, parent_tag, anno_node, ch, branch_id, anno_index) \<Rightarrow>
            2 * sum_list (map xml_count ch) + 1)", goal_cases)
  case 1
  show ?case by simp
next
  case (2 E anno_index pth xml_node x2 x xa)
  show ?case using xml_count_children [of xml_node] by simp
next
  case (3 E parent_tag anno_node child rest branch_id anno_index)
  show ?case using xml_count_pos [of child] by simp
next
  case (4 E parent_tag anno_node child rest branch_id anno_index)
  show ?case using xml_count_pos [of child] by simp
next
  case (5 E parent_tag anno_node child rest branch_id anno_index x2 x y)
  show ?case using xml_count_pos [of child] by simp
next
  case (6 E parent_tag anno_node child rest branch_id anno_index x2 x y x2a)
  have "sum_list (map xml_count (dropWhile has_child rest)) \<le> sum_list (map xml_count rest)"
    by (induction rest) auto
  then show ?case using xml_count_pos [of child] by simp
qed

declare build_anno.simps [simp del]

section \<open>Registered paths\<close>

text \<open>
  The paths of the nodes of a tree in pre-order, the path of the \<open>i\<close>-th child of a
  node, and the property that every child of every node carries the path of its parent
  extended by a dot and the decimal ordinal of the child.
\<close>

fun all_paths :: "'u AnnoTreeNode \<Rightarrow> string list" where
  "all_paths (AnnoTreeNode t p k ks c l cm ch) = p # concat (map all_paths ch)"

definition child_path :: "string \<Rightarrow> nat \<Rightarrow> string" where
  "child_path p i = p @ ''.'' @ str_nat i"

fun paths_ok :: "'u AnnoTreeNode \<Rightarrow> bool" where
  "paths_ok (AnnoTreeNode t p k ks c l cm ch) =
     (map path ch = map (child_path p) [0..<length ch] \<and> list_all paths_ok ch)"

lemma all_paths_sel: "all_paths n = path n # concat (map all_paths (nn n))"
  by (cases n) simp

lemma paths_ok_sel:
  "paths_ok n =
     (map path (nn n) = map (child_path (path n)) [0..<length (nn n)] \<and> list_all paths_ok (nn n))"
  by (cases n) simp

lemma set_sel [simp]:
  "path (set_path p n) = p" "nn (set_path p n) = nn n" "is_leaf (set_path p n) = is_leaf n"
  "keys (set_path p n) = keys n" "convo (set_path p n) = convo n"
  "path (set_tag t n) = path n" "nn (set_tag t n) = nn n" "is_leaf (set_tag t n) = is_leaf n"
  "keys (set_tag t n) = keys n" "convo (set_tag t n) = convo n"
  "path (set_is_leaf l n) = path n" "nn (set_is_leaf l n) = nn n" "is_leaf (set_is_leaf l n) = l"
  "keys (set_is_leaf l n) = keys n" "convo (set_is_leaf l n) = convo n"
  "path (set_keys ks n) = path n" "nn (set_keys ks n) = nn n" "is_leaf (set_keys ks n) = is_leaf n"
  "keys (set_keys ks n) = ks" "convo (set_keys ks n) = convo n"
  "path (set_nn ch n) = path n" "nn (set_nn ch n) = ch" "is_leaf (set_nn ch n) = is_leaf n"
  "keys (set_nn ch n) = keys n" "convo (set_nn ch n) = convo n"
  "path (set_payload ks cv n) = path n" "nn (set_payload ks cv n) = nn n"
  "is_leaf (set_payload ks cv n) = is_leaf n"
  "keys (set_payload ks cv n) = ks" "convo (set_payload ks cv n) = cv"
  by (simp_all add: set_path_def set_tag_def set_is_leaf_def set_keys_def set_nn_def
        set_payload_def)

lemma register_distinct:
  "register_anno_node idx p = Inr idx' \<Longrightarrow> distinct idx \<Longrightarrow> distinct idx'"
  by (auto simp: register_anno_node_def split: if_splits)

lemma register_eq:
  "register_anno_node idx p = Inr idx' \<Longrightarrow> idx' = idx @ [p]"
  by (auto simp: register_anno_node_def split: if_splits)

lemma child_paths_snoc:
  "map path nnn = map (child_path p) [0..<length nnn] \<Longrightarrow> path c = child_path p (length nnn) \<Longrightarrow>
   map path (nnn @ [c]) = map (child_path p) [0..<length (nnn @ [c])]"
  by simp

lemma normalize_distinct:
  "normalize_anno_tree pth node idx = Inr (node', idx') \<Longrightarrow> distinct idx \<Longrightarrow> distinct idx'"
  "normalize_loop pth node ch nnn b idx = Inr (node', idx') \<Longrightarrow> distinct idx \<Longrightarrow> distinct idx'"
proof (induction pth node idx and pth node ch nnn b idx arbitrary: node' idx' and node' idx'
    rule: normalize_anno_tree_normalize_loop.induct)
  case (1 pth node anno_index)
  from "1.prems"(1) obtain i1 where r: "register_anno_node anno_index pth = Inr i1"
    and l: "normalize_loop pth (set_is_leaf (list_all is_utterance (nn node)) (set_path pth node))
            (nn node) [] 0 i1 = Inr (node', idx')"
    by (auto simp: normalize_anno_tree.simps split: sum.splits)
  from register_distinct [OF r "1.prems"(2)] have "distinct i1" .
  from "1.IH" [OF r l this] show ?case .
next
  case (2 pth node normalized_nn branch_id anno_index)
  then show ?case by simp
next
  case (3 pth node child rest normalized_nn branch_id anno_index)
  show ?case
  proof (cases "is_utterance child")
    case True
    show ?thesis
    proof (cases "is_leaf node")
      case l: True
      with True "3.prems" show ?thesis by simp
    next
      case l: False
      from "3.prems"(1) True l obtain i1 where
        r: "register_anno_node anno_index (pth @ ''.'' @ str_nat branch_id) = Inr i1"
        and lp: "normalize_loop pth node (dropWhile is_utterance rest)
                  (normalized_nn @ [composed_topic (pth @ ''.'' @ str_nat branch_id)
                        (map key (takeWhile is_utterance (child # rest)))])
                  (branch_id + 1) i1 = Inr (node', idx')"
        by (auto split: sum.splits)
      from register_distinct [OF r "3.prems"(2)] have "distinct i1" .
      from "3.IH"(1) [OF True l r lp this] show ?thesis .
    qed
  next
    case False
    from "3.prems"(1) False obtain c1 i1 where
      t: "normalize_anno_tree (pth @ ''.'' @ str_nat branch_id) child anno_index = Inr (c1, i1)"
      and lp: "normalize_loop pth (set_is_leaf False node) rest (normalized_nn @ [c1])
               (branch_id + 1) i1 = Inr (node', idx')"
      by (auto split: sum.splits)
    from "3.IH"(2) [OF False t "3.prems"(2)] have "distinct i1" .
    from "3.IH"(3) [OF False t _ lp this] show ?thesis by simp
  qed
qed

lemma paths_ok_set_nn [simp]:
  "paths_ok (set_nn ch n) =
     (map path ch = map (child_path (path n)) [0..<length ch] \<and> list_all paths_ok ch)"
  by (simp add: paths_ok_sel [of "set_nn ch n"])

lemma all_paths_set_nn [simp]:
  "all_paths (set_nn ch n) = path n # concat (map all_paths ch)"
  by (simp add: all_paths_sel [of "set_nn ch n"])

lemma composed_topic_paths [simp]:
  "path (composed_topic p ks) = p" "paths_ok (composed_topic p ks)"
  "all_paths (composed_topic p ks) = [p]"
  by (simp_all add: composed_topic_def)

lemma normalize_paths:
  "normalize_anno_tree pth node idx = Inr (node', idx') \<Longrightarrow>
     path node' = pth \<and> paths_ok node' \<and> idx' = idx @ all_paths node'"
  "normalize_loop pth node ch nnn b idx = Inr (node', idx') \<Longrightarrow>
     path node = pth \<Longrightarrow> b = length nnn \<Longrightarrow>
     map path nnn = map (child_path pth) [0..<length nnn] \<Longrightarrow>
     list_all paths_ok nnn \<Longrightarrow> (is_leaf node \<longrightarrow> nnn = []) \<Longrightarrow>
     path node' = pth \<and> paths_ok node' \<and> take (length nnn) (nn node') = nnn \<and>
     idx' = idx @ concat (map all_paths (drop (length nnn) (nn node')))"
proof (induction pth node idx and pth node ch nnn b idx arbitrary: node' idx' and node' idx'
    rule: normalize_anno_tree_normalize_loop.induct)
  case (1 pth node anno_index)
  from "1.prems"(1) obtain i1 where r: "register_anno_node anno_index pth = Inr i1"
    and l: "normalize_loop pth (set_is_leaf (list_all is_utterance (nn node)) (set_path pth node))
            (nn node) [] 0 i1 = Inr (node', idx')"
    by (auto simp: normalize_anno_tree.simps split: sum.splits)
  from "1.IH" [OF r l]
  have "path node' = pth \<and> paths_ok node' \<and> idx' = i1 @ concat (map all_paths (nn node'))"
    by simp
  then show ?case
    using register_eq [OF r] by (simp add: all_paths_sel [of node'])
next
  case (2 pth node normalized_nn branch_id anno_index)
  then show ?case by auto
next
  case (3 pth node child rest normalized_nn branch_id anno_index)
  show ?case
  proof (cases "is_utterance child")
    case True
    show ?thesis
    proof (cases "is_leaf node")
      case l: True
      with True "3.prems" show ?thesis
        by auto
    next
      case l: False
      let ?p = "pth @ ''.'' @ str_nat branch_id"
      let ?c = "composed_topic ?p (map key (takeWhile is_utterance (child # rest)))"
      from "3.prems"(1) True l obtain i1 where
        r: "register_anno_node anno_index ?p = Inr i1"
        and lp: "normalize_loop pth node (dropWhile is_utterance rest)
                  (normalized_nn @ [?c]) (branch_id + 1) i1 = Inr (node', idx')"
        by (auto split: sum.splits)
      have pc: "path ?c = child_path pth (length normalized_nn)" "paths_ok ?c"
        using "3.prems"(3) by (simp_all add: child_path_def)
      have ih: "path node' = pth \<and> paths_ok node' \<and>
           take (length (normalized_nn @ [?c])) (nn node') = normalized_nn @ [?c] \<and>
           idx' = i1 @ concat (map all_paths (drop (length (normalized_nn @ [?c])) (nn node')))"
      proof (rule "3.IH"(1) [OF True l r lp])
        show "path node = pth" by (rule "3.prems"(2))
        show "branch_id + 1 = length (normalized_nn @ [?c])" using "3.prems"(3) by simp
        show "map path (normalized_nn @ [?c]) =
                map (child_path pth) [0..<length (normalized_nn @ [?c])]"
          using "3.prems"(4) pc(1) by (rule child_paths_snoc)
        show "list_all paths_ok (normalized_nn @ [?c])"
          using "3.prems"(5) pc(2) by simp
        show "is_leaf node \<longrightarrow> normalized_nn @ [?c] = []" using l by simp
      qed
      then have tk: "take (Suc (length normalized_nn)) (nn node') = normalized_nn @ [?c]"
        by simp
      then have len: "length normalized_nn < length (nn node')"
        by (metis length_append_singleton length_take lessI min_less_iff_conj)
      have t1: "take (length normalized_nn) (nn node') = normalized_nn"
        using tk by (metis append_eq_conv_conj butlast_snoc butlast_take diff_Suc_1 len Suc_leI)
      have nth: "nn node' ! length normalized_nn = ?c"
        using tk len by (metis nth_append_length nth_take lessI)
      have dr: "drop (length normalized_nn) (nn node') = ?c # drop (Suc (length normalized_nn)) (nn node')"
        using len nth by (metis Cons_nth_drop_Suc)
      show ?thesis
        using ih register_eq [OF r] t1 dr by simp
    qed
  next
    case False
    let ?p = "pth @ ''.'' @ str_nat branch_id"
    from "3.prems"(1) False obtain c1 i1 where
      t: "normalize_anno_tree ?p child anno_index = Inr (c1, i1)"
      and lp: "normalize_loop pth (set_is_leaf False node) rest (normalized_nn @ [c1])
               (branch_id + 1) i1 = Inr (node', idx')"
      by (auto split: sum.splits)
    from "3.IH"(2) [OF False t] have c1: "path c1 = ?p" "paths_ok c1" "i1 = anno_index @ all_paths c1"
      by simp_all
    have pc: "path c1 = child_path pth (length normalized_nn)"
      using c1(1) "3.prems"(3) by (simp add: child_path_def)
    have ih: "path node' = pth \<and> paths_ok node' \<and>
           take (length (normalized_nn @ [c1])) (nn node') = normalized_nn @ [c1] \<and>
           idx' = i1 @ concat (map all_paths (drop (length (normalized_nn @ [c1])) (nn node')))"
    proof (rule "3.IH"(3) [OF False t _ lp])
      show "(c1, i1) = (c1, i1)" by simp
      show "path (set_is_leaf False node) = pth" using "3.prems"(2) by simp
      show "branch_id + 1 = length (normalized_nn @ [c1])" using "3.prems"(3) by simp
      show "map path (normalized_nn @ [c1]) =
              map (child_path pth) [0..<length (normalized_nn @ [c1])]"
        using "3.prems"(4) pc by (rule child_paths_snoc)
      show "list_all paths_ok (normalized_nn @ [c1])"
        using "3.prems"(5) c1(2) by simp
      show "is_leaf (set_is_leaf False node) \<longrightarrow> normalized_nn @ [c1] = []" by simp
    qed
    then have tk: "take (Suc (length normalized_nn)) (nn node') = normalized_nn @ [c1]"
      by simp
    then have len: "length normalized_nn < length (nn node')"
      by (metis length_append_singleton length_take lessI min_less_iff_conj)
    have t1: "take (length normalized_nn) (nn node') = normalized_nn"
      using tk by (metis append_eq_conv_conj butlast_snoc butlast_take diff_Suc_1 len Suc_leI)
    have nth: "nn node' ! length normalized_nn = c1"
      using tk len by (metis nth_append_length nth_take lessI)
    have dr: "drop (length normalized_nn) (nn node') = c1 # drop (Suc (length normalized_nn)) (nn node')"
      using len nth by (metis Cons_nth_drop_Suc)
    show ?thesis
      using ih c1(3) t1 dr by simp
  qed
qed

text \<open>
  Every node flagged as a leaf carries at least one key, and as many utterances as
  keys.
\<close>

fun leaves_ok :: "'u AnnoTreeNode \<Rightarrow> bool" where
  "leaves_ok (AnnoTreeNode t p k ks c l cm ch) =
     ((if l then ks \<noteq> [] \<and> length c = length ks else True) \<and> list_all leaves_ok ch)"

lemma leaves_ok_sel:
  "leaves_ok n =
     ((if is_leaf n then keys n \<noteq> [] \<and> length (convo n) = length (keys n) else True)
      \<and> list_all leaves_ok (nn n))"
  by (cases n) simp

lemma take_snoc_split:
  assumes "take (Suc (length xs)) ys = xs @ [c]"
  shows "take (length xs) ys = xs" and "drop (length xs) ys = c # drop (Suc (length xs)) ys"
proof -
  from assms have len: "length xs < length ys"
    by (metis length_append_singleton length_take lessI min_less_iff_conj)
  show "take (length xs) ys = xs"
    using assms by (metis append_eq_conv_conj butlast_snoc butlast_take diff_Suc_1 len Suc_leI)
  have "ys ! length xs = c"
    using assms len by (metis nth_append_length nth_take lessI)
  then show "drop (length xs) ys = c # drop (Suc (length xs)) ys"
    using len by (metis Cons_nth_drop_Suc)
qed

lemma convo_leaf_paths [simp]:
  "path (convo_leaf p ks cv) = p" "paths_ok (convo_leaf p ks cv)"
  "all_paths (convo_leaf p ks cv) = [p]"
  by (simp_all add: convo_leaf_def)

lemma paths_ok_set_payload [simp]: "paths_ok (set_payload ks cv n) = paths_ok n"
  by (simp add: paths_ok_sel [of "set_payload ks cv n"] paths_ok_sel [of n])

lemma build_distinct:
  "build_anno E idx pth x = Inr (node', idx') \<Longrightarrow> distinct idx \<Longrightarrow> distinct idx'"
  "build_loop E ptag node ch b idx = Inr (node', idx') \<Longrightarrow> distinct idx \<Longrightarrow> distinct idx'"
proof (induction E idx pth x and E ptag node ch b idx arbitrary: node' idx' and node' idx'
    rule: build_anno_build_loop.induct)
  case (1 E anno_index pth xml_node)
  let ?leaf = "\<not> list_ex (\<lambda>child. xml_tag child = ''topic'') (xml_children xml_node)"
  let ?node = "set_tag (if py_in ''root'' (xml_tag xml_node) then ''root''
                          else if ?leaf then ''leaf'' else ''topic'')
                   (set_is_leaf ?leaf (set_path pth new_AnnoTreeNode))"
  from "1.prems"(1) obtain i1 where r: "register_anno_node anno_index pth = Inr i1"
    and l: "build_loop E (xml_tag xml_node) ?node (xml_children xml_node) 0 i1 = Inr (node', idx')"
    by (auto simp: build_anno.simps Let_def split: sum.splits if_splits)
  from register_distinct [OF r "1.prems"(2)] have "distinct i1" .
  from "1.IH" [OF r refl refl l this] show ?case .
next
  case (2 E parent_tag anno_node branch_id anno_index)
  then show ?case by simp
next
  case (3 E parent_tag anno_node child rest branch_id anno_index)
  show ?case
  proof (cases "has_pointer child")
    case True
    with "3.prems" "3.IH"(1) show ?thesis by simp
  next
    case np: False
    show ?thesis
    proof (cases "has_topic child")
      case True
      from "3.prems"(1) np True obtain c1 i1 where
        t: "build_anno E anno_index (path anno_node @ ''.'' @ str_nat branch_id) child = Inr (c1, i1)"
        and lp: "build_loop E parent_tag (set_nn (nn anno_node @ [c1]) anno_node) rest
               (branch_id + 1) i1 = Inr (node', idx')"
        by (auto split: sum.splits)
      from "3.IH"(2) [OF np True t "3.prems"(2)] have "distinct i1" .
      from "3.IH"(3) [OF np True t _ lp this] show ?thesis by simp
    next
      case nt: False
      show ?thesis
      proof (cases "has_child child")
        case False
        with np nt "3.prems" show ?thesis by simp
      next
        case True
        from "3.prems"(1) np nt True obtain ks cv where
          s: "segment_to_utterances E (child # takeWhile has_child rest) = Inr (ks, cv)"
          and ne: "ks \<noteq> []"
          by (auto split: sum.splits if_splits)
        show ?thesis
        proof (cases "is_leaf anno_node")
          case l: True
          with "3.prems" np nt True s ne show ?thesis by simp
        next
          case l: False
          from "3.prems"(1) np nt True s ne l obtain i1 where
            r: "register_anno_node anno_index (path anno_node @ ''.'' @ str_nat branch_id) = Inr i1"
            and lp: "build_loop E parent_tag
                      (set_nn (nn anno_node
                                 @ [convo_leaf (path anno_node @ ''.'' @ str_nat branch_id) ks cv])
                         anno_node)
                      (dropWhile has_child rest) (branch_id + 1) i1 = Inr (node', idx')"
            by (auto split: sum.splits)
          from register_distinct [OF r "3.prems"(2)] have "distinct i1" .
          from "3.IH"(4) [OF np nt True s _ ne _ r lp this] l show ?thesis by simp
        qed
      qed
    qed
  qed
qed

lemma segment_to_utterances_keys:
  "segment_to_utterances E es = Inr (ks, cv) \<Longrightarrow> ks = map u_key cv"
  by (auto simp: segment_to_utterances_def Let_def split: sum.splits)

lemma convo_leaf_leaves_ok [simp]:
  "leaves_ok (convo_leaf p ks cv) = (ks \<noteq> [] \<and> length cv = length ks)"
  by (simp add: convo_leaf_def)

lemma build_shape:
  "build_anno E idx pth x = Inr (node', idx') \<Longrightarrow>
     path node' = pth \<and> paths_ok node' \<and> idx' = idx @ all_paths node' \<and> leaves_ok node'"
  "build_loop E ptag node ch b idx = Inr (node', idx') \<Longrightarrow>
     b = length (nn node) \<Longrightarrow>
     map path (nn node) = map (child_path (path node)) [0..<length (nn node)] \<Longrightarrow>
     list_all paths_ok (nn node) \<Longrightarrow> list_all leaves_ok (nn node) \<Longrightarrow> keys node = [] \<Longrightarrow>
     path node' = path node \<and> is_leaf node' = is_leaf node \<and> paths_ok node' \<and>
     take (length (nn node)) (nn node') = nn node \<and>
     idx' = idx @ concat (map all_paths (drop (length (nn node)) (nn node'))) \<and>
     list_all leaves_ok (nn node') \<and>
     (keys node' = [] \<or> length (convo node') = length (keys node'))"
proof (induction E idx pth x and E ptag node ch b idx arbitrary: node' idx' and node' idx'
    rule: build_anno_build_loop.induct)
  case (1 E anno_index pth xml_node)
  let ?leaf = "\<not> list_ex (\<lambda>child. xml_tag child = ''topic'') (xml_children xml_node)"
  let ?node = "set_tag (if py_in ''root'' (xml_tag xml_node) then ''root''
                          else if ?leaf then ''leaf'' else ''topic'')
                   (set_is_leaf ?leaf (set_path pth new_AnnoTreeNode))"
  from "1.prems"(1) obtain i1 where r: "register_anno_node anno_index pth = Inr i1"
    and l: "build_loop E (xml_tag xml_node) ?node (xml_children xml_node) 0 i1 = Inr (node', idx')"
    and k: "\<not> (is_leaf node' \<and> keys node' = [])"
    by (auto simp: build_anno.simps Let_def split: sum.splits if_splits)
  from "1.IH" [OF r refl refl l]
  have "path node' = pth \<and> paths_ok node' \<and>
     idx' = i1 @ concat (map all_paths (nn node')) \<and>
     list_all leaves_ok (nn node') \<and>
     (keys node' = [] \<or> length (convo node') = length (keys node'))"
    by (simp add: new_AnnoTreeNode_def)
  then show ?case
    using register_eq [OF r] k
    by (auto simp: all_paths_sel [of node'] leaves_ok_sel [of node'])
next
  case (2 E parent_tag anno_node branch_id anno_index)
  then show ?case by (auto simp: paths_ok_sel [of node'])
next
  case (3 E parent_tag anno_node child rest branch_id anno_index)
  show ?case
  proof (cases "has_pointer child")
    case True
    with "3.prems" "3.IH"(1) show ?thesis by simp
  next
    case np: False
    show ?thesis
    proof (cases "has_topic child")
      case True
      let ?p = "path anno_node @ ''.'' @ str_nat branch_id"
      from "3.prems"(1) np True obtain c1 i1 where
        t: "build_anno E anno_index ?p child = Inr (c1, i1)"
        and lp: "build_loop E parent_tag (set_nn (nn anno_node @ [c1]) anno_node) rest
               (branch_id + 1) i1 = Inr (node', idx')"
        by (auto split: sum.splits)
      from "3.IH"(2) [OF np True t]
      have c1: "path c1 = ?p" "paths_ok c1" "i1 = anno_index @ all_paths c1" "leaves_ok c1"
        by simp_all
      have pc: "path c1 = child_path (path anno_node) (length (nn anno_node))"
        using c1(1) "3.prems"(2) by (simp add: child_path_def)
      let ?n1 = "set_nn (nn anno_node @ [c1]) anno_node"
      have ih: "path node' = path ?n1 \<and> is_leaf node' = is_leaf ?n1 \<and> paths_ok node' \<and>
           take (length (nn ?n1)) (nn node') = nn ?n1 \<and>
           idx' = i1 @ concat (map all_paths (drop (length (nn ?n1)) (nn node'))) \<and>
           list_all leaves_ok (nn node') \<and>
           (keys node' = [] \<or> length (convo node') = length (keys node'))"
      proof (rule "3.IH"(3) [OF np True t _ lp])
        show "(c1, i1) = (c1, i1)" by simp
        show "branch_id + 1 = length (nn ?n1)" using "3.prems"(2) by simp
        show "map path (nn ?n1) = map (child_path (path ?n1)) [0..<length (nn ?n1)]"
          using child_paths_snoc [OF "3.prems"(3) pc] by simp
        show "list_all paths_ok (nn ?n1)" using "3.prems"(4) c1(2) by simp
        show "list_all leaves_ok (nn ?n1)" using "3.prems"(5) c1(4) by simp
        show "keys ?n1 = []" using "3.prems"(6) by simp
      qed
      then have tk: "take (Suc (length (nn anno_node))) (nn node') = nn anno_node @ [c1]"
        by simp
      show ?thesis
        using ih c1(3) take_snoc_split [OF tk] by simp
    next
      case nt: False
      show ?thesis
      proof (cases "has_child child")
        case False
        with np nt "3.prems" show ?thesis by simp
      next
        case True
        from "3.prems"(1) np nt True obtain ks cv where
          s: "segment_to_utterances E (child # takeWhile has_child rest) = Inr (ks, cv)"
          and ne: "ks \<noteq> []"
          by (auto split: sum.splits if_splits)
        have len: "length cv = length ks"
          using segment_to_utterances_keys [OF s] by simp
        show ?thesis
        proof (cases "is_leaf anno_node")
          case l: True
          with "3.prems" np nt True s ne len show ?thesis
            by (auto simp: paths_ok_sel [of anno_node])
        next
          case l: False
          let ?p = "path anno_node @ ''.'' @ str_nat branch_id"
          let ?c = "convo_leaf ?p ks cv"
          let ?n1 = "set_nn (nn anno_node @ [?c]) anno_node"
          from "3.prems"(1) np nt True s ne l obtain i1 where
            r: "register_anno_node anno_index ?p = Inr i1"
            and lp: "build_loop E parent_tag ?n1
                      (dropWhile has_child rest) (branch_id + 1) i1 = Inr (node', idx')"
            by (auto split: sum.splits)
          have pc: "path ?c = child_path (path anno_node) (length (nn anno_node))"
            using "3.prems"(2) by (simp add: child_path_def)
          have ih: "path node' = path ?n1 \<and> is_leaf node' = is_leaf ?n1 \<and> paths_ok node' \<and>
             take (length (nn ?n1)) (nn node') = nn ?n1 \<and>
             idx' = i1 @ concat (map all_paths (drop (length (nn ?n1)) (nn node'))) \<and>
             list_all leaves_ok (nn node') \<and>
             (keys node' = [] \<or> length (convo node') = length (keys node'))"
          proof (rule "3.IH"(4) [OF np nt True s refl ne l r lp])
            show "branch_id + 1 = length (nn ?n1)" using "3.prems"(2) by simp
            show "map path (nn ?n1) = map (child_path (path ?n1)) [0..<length (nn ?n1)]"
              using child_paths_snoc [OF "3.prems"(3) pc] by simp
            show "list_all paths_ok (nn ?n1)" using "3.prems"(4) by simp
            show "list_all leaves_ok (nn ?n1)" using "3.prems"(5) ne len by simp
            show "keys ?n1 = []" using "3.prems"(6) by simp
          qed
          then have tk: "take (Suc (length (nn anno_node))) (nn node') = nn anno_node @ [?c]"
            by simp
          show ?thesis
            using ih register_eq [OF r] take_snoc_split [OF tk] by simp
        qed
      qed
    qed
  qed
qed

lemma digit_char_digit: "d < 10 \<Longrightarrow> digit_char d \<in> set digits"
  unfolding digit_char_def by (rule nth_mem) (simp add: digits_def)

lemma str_nat_digits: "set (str_nat n) \<subseteq> set digits"
proof (induction n rule: str_nat.induct)
  case (1 n)
  show ?case
  proof (cases "n < 10")
    case True
    then show ?thesis using digit_char_digit [of n] by (subst str_nat.simps) simp
  next
    case False
    have "n mod 10 < 10" by simp
    from digit_char_digit [OF this] "1.IH" [OF False] False
    show ?thesis by (subst str_nat.simps) simp
  qed
qed

lemma str_nat_nonempty: "str_nat n \<noteq> []"
  by (subst str_nat.simps) simp

lemma dot_not_digit: "CHR ''.'' \<notin> set digits"
  by (simp add: digits_def)

lemma str_nat_no_dot: "CHR ''.'' \<notin> set (str_nat n)"
  using str_nat_digits [of n] dot_not_digit by blast

section \<open>Examples\<close>

text \<open>
  An ICSI tree as \<^verbatim>\<open>build_anno\<close> leaves it (a placeholder and a topic holding one),
  an AMI environment with one speaker whose first token is a gap, an AMI annotation
  document over it, and one whose only reference points at the gap.
\<close>

definition icsi_example_root :: "string AnnoTreeNode" where
  "icsi_example_root =
     AnnoTreeNode ''root'' [] [] [] [] False False
       [AnnoTreeNode ''utterance'' [] ''A:s1'' [] [] False False [],
        AnnoTreeNode ''topic'' [] [] [] [] False False
          [AnnoTreeNode ''utterance'' [] ''A:s2'' [] [] False False []]]"

definition ami_example_env :: "nat ami_env" where
  "ami_example_env =
     \<lparr>ami_strip_key = (\<lambda>s. s), hhmmss = (\<lambda>t. []), timed_utterances = False,
      ami_words =
        [(''M'', [(''A'',
           \<lparr>a_words = [None, Some \<lparr>a_text = ''hi'', a_lspace = True, a_rspace = True,
                                     a_start = 1, a_end = 2\<rparr>],
            a_index = [(''w0'', 0), (''w1'', 1)]\<rparr>)])]\<rparr>"

definition ami_example_root :: xml where
  "ami_example_root =
     Element ''nite:root'' [] None
       [Element ''topic'' [] None
          [Element ''nite:pointer'' [] None [],
           Element ''nite:child'' [(''href'', ''M.A.words.xml#w1'')] None []],
        Element ''nite:child'' [(''href'', ''M.A.words.xml#w0..w1'')] None []]"

definition ami_gap_child :: xml where
  "ami_gap_child = Element ''nite:child'' [(''href'', ''M.A.words.xml#w0'')] None []"

definition ami_gap_root :: xml where
  "ami_gap_root = Element ''nite:root'' [] None [ami_gap_child]"

text \<open>An ICSI speaker whose only token is a gap, and a segment over that token.\<close>

definition icsi_gap_words :: "unit word_index" where
  "icsi_gap_words = \<lparr>words = [None], index = [(''w1'', 0)]\<rparr>"

definition icsi_gap_seg :: xml where
  "icsi_gap_seg =
     Element ''segment'' [(nite_id, ''s1''), (''starttime'', ''0.0''), (''endtime'', ''1.0'')] None
       [Element ''nite:child'' [(''href'', ''Bed.A.words.xml#w1'')] None []]"

definition icsi_gap_file :: xml where
  "icsi_gap_file = Element ''nite:root'' [] None [icsi_gap_seg]"

definition plain_prims :: "unit prims" where
  "plain_prims = \<lparr>strip_key = (\<lambda>s. s), py_float = (\<lambda>s. Some ()), add_one = (\<lambda>x. x)\<rparr>"

lemma str_nat_small: "str_nat 0 = ''0''" "str_nat 1 = ''1''" "str_nat (Suc 0) = ''1''"
  by (simp_all add: str_nat.simps digit_char_def digits_def)

lemma example_splits:
  "py_split ''M.A.words.xml#w1'' ''#'' = [''M.A.words.xml'', ''w1'']"
  "py_split ''M.A.words.xml#w0'' ''#'' = [''M.A.words.xml'', ''w0'']"
  "py_split ''M.A.words.xml#w0..w1'' ''#'' = [''M.A.words.xml'', ''w0..w1'']"
  "py_split ''M.A.words.xml'' ''.'' = [''M'', ''A'', ''words'', ''xml'']"
  "py_split ''w0..w1'' ''..'' = [''w0'', ''w1'']"
  "py_split ''Bed.A.words.xml#w1'' ''#'' = [''Bed.A.words.xml'', ''w1'']"
  by (simp_all add: py_split_def py_split_from.simps)

lemma icsi_example_normalized:
  "normalize_anno_tree ''*'' icsi_example_root [] =
     Inr (AnnoTreeNode ''root'' ''*'' [] [] [] False False
            [AnnoTreeNode ''topic'' ''*.0'' [] [''A:s1''] [] True True [],
             AnnoTreeNode ''topic'' ''*.1'' [] [''A:s2''] [] True False []],
          [''*'', ''*.0'', ''*.1''])"
  by (simp add: icsi_example_root_def normalize_anno_tree.simps register_anno_node_def
        is_utterance_def set_path_def set_is_leaf_def set_nn_def set_keys_def composed_topic_def
        str_nat_small)

lemma ami_example_built:
  "build_anno ami_example_env [] ''*'' ami_example_root =
     Inr (AnnoTreeNode ''root'' ''*'' [] [] [] False False
            [AnnoTreeNode ''leaf'' ''*.0'' [] [''w1'']
               [\<lparr>u_key = ''w1'', u_speaker = ''A'', u_meeting = ''M'', u_start = 1, u_end = 2,
                  u_text = ''hi'', u_composite = Some ''-hi''\<rparr>] True False [],
             AnnoTreeNode ''leaf'' ''*.1'' [] [''w0..w1'']
               [\<lparr>u_key = ''w0..w1'', u_speaker = ''A'', u_meeting = ''M'', u_start = 1,
                  u_end = 2, u_text = ''hi'', u_composite = Some ''-hi''\<rparr>] True False []],
          [''*'', ''*.0'', ''*.1''])"
  by (simp add: ami_example_env_def ami_example_root_def build_anno.simps register_anno_node_def
        has_pointer_def has_topic_def has_child_def segment_to_utterances_def
        entry_utterances_def example_splits dict_get_def list_get_def new_AnnoTreeNode_def
        set_path_def set_is_leaf_def set_tag_def set_nn_def set_payload_def convo_leaf_def
        str_nat_small upt_rec mint_utterance_def sentence_end_def compose_utterance_def)

lemma ami_gap_segment:
  "segment_to_utterances ami_example_env [ami_gap_child] = Inr ([], [])"
  by (simp add: ami_example_env_def ami_gap_child_def segment_to_utterances_def
        entry_utterances_def example_splits dict_get_def list_get_def)

lemma xml_tag_gap_child: "xml_tag ami_gap_child = ''nite:child''"
  by (simp add: ami_gap_child_def)

lemma ami_gap_built:
  "build_anno ami_example_env [] ''*'' ami_gap_root = Inl (NodeNoKeys ''nite:root'')"
  by (simp add: ami_gap_root_def build_anno.simps register_anno_node_def xml_tag_gap_child
        has_pointer_def has_topic_def has_child_def ami_gap_segment)

section \<open>Ranges without tokens\<close>

lemma absorb_range_gaps:
  "list_all (\<lambda>t. t < length ws \<and> ws ! t = None) ts \<Longrightarrow> absorb_range ws u ts = Inr (u, ws)"
  by (induction ts) (auto simp: list_get_def)

lemma split_range_gaps:
  "list_all (\<lambda>i. i < length ws \<and> ws ! i = None) ixs \<Longrightarrow>
   split_range utt_content spk meeting ws ixs utt_words utterances = Inr (utt_words, utterances)"
  by (induction ixs) (auto simp: list_get_def)

lemma load_seg_gaps:
  assumes "xml_children seg \<noteq> []"
    and "dict_get (attrib seg) nite_id = Inr seg_id"
    and "dict_get (attrib seg) ''starttime'' = Inr seg_start"
    and "dict_get (attrib seg) ''endtime'' = Inr seg_end"
    and "dict_get (attrib (hd (xml_children seg))) ''href'' = Inr href"
    and "key_range (strip_key P) (last (py_split href ''#'')) = Inr (start_key, end_key)"
    and "dict_get (index wi) start_key = Inr start_idx"
    and "dict_get (index wi) end_key = Inr end_idx"
    and "list_all (\<lambda>t. t < length (words wi) \<and> words wi ! t = None) [start_idx..<end_idx + 1]"
  shows "load_seg P spk seg (wi, utterances) = Inr (wi, utterances)"
proof -
  have "absorb_range (words wi) None [start_idx..<end_idx + 1] = Inr (None, words wi)"
    using assms(9) by (rule absorb_range_gaps)
  then show ?thesis
    using assms(1-8) by (simp add: load_seg_def)
qed

lemma build_loop_no_keys:
  assumes "\<not> has_pointer child" "\<not> has_topic child" "has_child child"
    and "segment_to_utterances E (child # takeWhile has_child rest) = Inr ([], cv)"
  shows "build_loop E parent_tag anno_node (child # rest) branch_id anno_index
           = Inl (NodeNoKeys parent_tag)"
  using assms by simp

section \<open>ICSI: resolution in the tree, finalisation, and the load of one meeting\<close>

text \<open>\<^verbatim>\<open>sep.join(parts)\<close> and \<^verbatim>\<open>get_parent_path\<close>: the path without its last segment.\<close>

fun py_join :: "string \<Rightarrow> string list \<Rightarrow> string" where
  "py_join sep [] = []"
| "py_join sep [x] = x"
| "py_join sep (x # y # rest) = x @ sep @ py_join sep (y # rest)"

definition get_parent_path :: "string \<Rightarrow> string" where
  "get_parent_path pth = py_join ''.'' (butlast (py_split pth ''.''))"

text \<open>
  The leaves \<^verbatim>\<open>attach_meeting_notes\<close> walks through are the nodes of the tree
  themselves, so what it assigns to a leaf shows in the tree. Here the tree is
  rebuilt in the order of discovery (a node before its children, children left to
  right), with the duplicate list and the log threaded through.
\<close>

fun attach_tree ::
    "(string \<times> (string \<times> 'u) list) list \<Rightarrow> 'u AnnoTreeNode
      \<Rightarrow> (string \<times> string) list \<times> log_record list
      \<Rightarrow> py_error + ('u AnnoTreeNode \<times> (string \<times> string) list \<times> log_record list)"
  and attach_forest ::
    "(string \<times> (string \<times> 'u) list) list \<Rightarrow> 'u AnnoTreeNode list
      \<Rightarrow> (string \<times> string) list \<times> log_record list
      \<Rightarrow> py_error + ('u AnnoTreeNode list \<times> (string \<times> string) list \<times> log_record list)" where
  "attach_tree idx (AnnoTreeNode t p k ks c l cm ch) st =
     (if l then
        (case attach_keys idx p ks ([], [], fst st, snd st) of
           Inl e \<Rightarrow> Inl e
         | Inr (filtered_keys, cv, st1) \<Rightarrow>
             (case attach_forest idx ch st1 of
                Inl e \<Rightarrow> Inl e
              | Inr (ch', st2) \<Rightarrow> Inr (AnnoTreeNode t p k filtered_keys cv l cm ch', st2)))
      else
        (case attach_forest idx ch st of
           Inl e \<Rightarrow> Inl e
         | Inr (ch', st2) \<Rightarrow> Inr (AnnoTreeNode t p k ks c l cm ch', st2)))"
| "attach_forest idx [] st = Inr ([], st)"
| "attach_forest idx (n # ns) st =
     (case attach_tree idx n st of
        Inl e \<Rightarrow> Inl e
      | Inr (n', st1) \<Rightarrow>
          (case attach_forest idx ns st1 of
             Inl e \<Rightarrow> Inl e
           | Inr (ns', st2) \<Rightarrow> Inr (n' # ns', st2)))"

text \<open>The nodes of a tree in pre-order, and the node that carries a path.\<close>

fun all_nodes :: "'u AnnoTreeNode \<Rightarrow> 'u AnnoTreeNode list" where
  "all_nodes (AnnoTreeNode t p k ks c l cm ch) =
     AnnoTreeNode t p k ks c l cm ch # concat (map all_nodes ch)"

definition find_node :: "string \<Rightarrow> 'u AnnoTreeNode \<Rightarrow> 'u AnnoTreeNode option" where
  "find_node pth root = find (\<lambda>n. path n = pth) (all_nodes root)"

text \<open>
  \<^verbatim>\<open>parent.nn = [node for node in parent.nn if node.path != path]\<close>, where \<^verbatim>\<open>parent\<close>
  is the node registered under the parent path: the node of the tree with that path
  (paths are unique in the index).
\<close>

fun prune :: "string \<Rightarrow> string \<Rightarrow> 'u AnnoTreeNode \<Rightarrow> 'u AnnoTreeNode" where
  "prune parent_path pth (AnnoTreeNode t p k ks c l cm ch) =
     (if p = parent_path then AnnoTreeNode t p k ks c l cm (filter (\<lambda>n. path n \<noteq> pth) ch)
      else AnnoTreeNode t p k ks c l cm (map (prune parent_path pth) ch))"

text \<open>
  \<^verbatim>\<open>delete_anno_leaf(anno_index, path)\<close> on the tree, the keys of the index and the
  log. Both index reads raise \<^verbatim>\<open>KeyError\<close> on a path that is not registered.
\<close>

definition delete_anno_leaf ::
  "'u AnnoTreeNode \<times> string list \<times> log_record list \<Rightarrow> string
    \<Rightarrow> py_error + ('u AnnoTreeNode \<times> string list \<times> log_record list)" where
  "delete_anno_leaf st pth =
     (case st of (root, anno_index, logs) \<Rightarrow>
        if pth \<notin> set anno_index then Inl KeyError
        else if get_parent_path pth \<notin> set anno_index then Inl KeyError
        else
          (let root' = prune (get_parent_path pth) pth root;
               emptied = (case find_node (get_parent_path pth) root' of
                            Some parent \<Rightarrow> nn parent = []
                          | None \<Rightarrow> False)
           in Inr (root', remove1 pth anno_index,
                   logs @ [LogInfo (''Deleting '' @ pth)]
                     @ (if emptied
                        then [LogError ''Unsupported case: Parent node now has no children.'']
                        else []))))"

fun delete_leaves ::
  "string list \<Rightarrow> 'u AnnoTreeNode \<times> string list \<times> log_record list
    \<Rightarrow> py_error + ('u AnnoTreeNode \<times> string list \<times> log_record list)" where
  "delete_leaves [] st = Inr st"
| "delete_leaves (pth # rest) st =
     (case delete_anno_leaf st pth of Inl e \<Rightarrow> Inl e | Inr st' \<Rightarrow> delete_leaves rest st')"

text \<open>
  \<^verbatim>\<open>finalize_anno_tree\<close>: the leaves are discovered first, then every leaf without
  keys is deleted.
\<close>

definition finalize_anno_tree ::
  "string list \<Rightarrow> 'u AnnoTreeNode
    \<Rightarrow> py_error + ('u AnnoTreeNode \<times> string list \<times> log_record list)" where
  "finalize_anno_tree anno_index anno_root =
     delete_leaves (map path (filter (\<lambda>leaf. keys leaf = []) (discover_anno_leaves anno_root)))
       (anno_root, anno_index, [])"

text \<open>
  The body of \<^verbatim>\<open>load_anno_tree\<close> for one meeting, from the tree \<^verbatim>\<open>build_anno\<close> made of
  the annotation file: normalisation with a fresh index, resolution, finalisation.
\<close>

definition icsi_load_anno ::
  "(string \<times> (string \<times> 'u) list) list \<Rightarrow> 'u AnnoTreeNode
    \<Rightarrow> py_error + ('u AnnoTreeNode \<times> string list \<times> log_record list)" where
  "icsi_load_anno idx built =
     (case normalize_anno_tree ''*'' built [] of
        Inl e \<Rightarrow> Inl e
      | Inr (normalized, anno_index) \<Rightarrow>
          (case attach_tree idx normalized ([], []) of
             Inl e \<Rightarrow> Inl e
           | Inr (attached, duplicate_check_list, logs) \<Rightarrow>
               (case finalize_anno_tree anno_index attached of
                  Inl e \<Rightarrow> Inl e
                | Inr (anno_root, anno_index', logs') \<Rightarrow>
                    Inr (anno_root, anno_index', logs @ logs'))))"

text \<open>
  What finalisation leaves of a node to look at: path, leaf flag, keys, convo. A child
  path extends the path of its parent by a dot and a non-empty segment of digits.
\<close>

definition node_info :: "'u AnnoTreeNode \<Rightarrow> string \<times> bool \<times> string list \<times> 'u list" where
  "node_info n = (path n, is_leaf n, keys n, convo n)"

definition infos :: "'u AnnoTreeNode \<Rightarrow> (string \<times> bool \<times> string list \<times> 'u list) list" where
  "infos root = map node_info (all_nodes root)"

definition extends_path :: "string \<Rightarrow> string \<Rightarrow> bool" where
  "extends_path p q =
     (take (length p + 1) q = p @ ''.'' \<and> drop (length p + 1) q \<noteq> []
      \<and> list_all (\<lambda>c. c \<in> set digits) (drop (length p + 1) q))"

fun paths_ext :: "'u AnnoTreeNode \<Rightarrow> bool" where
  "paths_ext (AnnoTreeNode t p k ks c l cm ch) =
     (list_all (\<lambda>n. extends_path p (path n)) ch \<and> list_all paths_ext ch)"

fun leaf_childless :: "'u AnnoTreeNode \<Rightarrow> bool" where
  "leaf_childless (AnnoTreeNode t p k ks c l cm ch) =
     ((if l then ch = [] else True) \<and> list_all leaf_childless ch)"

lemma py_split_from_nonempty: "py_split_from sep acc s \<noteq> []"
  by (induction sep acc s rule: py_split_from.induct) (subst py_split_from.simps, simp)

lemma py_join_Cons: "xs \<noteq> [] \<Longrightarrow> py_join sep (x # xs) = x @ sep @ py_join sep xs"
  by (cases xs) simp_all

lemma split_char_step:
  "py_split_from [c] acc (x # t) =
     (if x = c then acc # py_split_from [c] [] t else py_split_from [c] (acc @ [x]) t)"
  by (subst py_split_from.simps) simp

lemma split_char_nil: "py_split_from [c] acc [] = [acc]"
  by (subst py_split_from.simps) simp

lemma split_char_free: "c \<notin> set s \<Longrightarrow> py_split_from [c] acc s = [acc @ s]"
  by (induction s arbitrary: acc) (auto simp: split_char_nil split_char_step)

lemma split_char_snoc:
  "c \<notin> set seg \<Longrightarrow> py_split_from [c] acc (P @ c # seg) = py_split_from [c] acc P @ [seg]"
  by (induction P arbitrary: acc) (auto simp: split_char_nil split_char_step split_char_free)

lemma join_split_char: "py_join [c] (py_split_from [c] acc s) = acc @ s"
  by (induction s arbitrary: acc)
     (auto simp: split_char_nil split_char_step py_join_Cons py_split_from_nonempty)

lemma get_parent_path_child:
  "CHR ''.'' \<notin> set seg \<Longrightarrow> get_parent_path (P @ ''.'' @ seg) = P"
  using split_char_snoc [of "CHR ''.''" seg "[]" P] join_split_char [of "CHR ''.''" "[]" P]
  by (simp add: get_parent_path_def py_split_def)

lemma get_parent_path_star: "get_parent_path ''*'' = []"
  by (simp add: get_parent_path_def py_split_def py_split_from.simps)

lemma all_nodes_sel: "all_nodes n = n # concat (map all_nodes (nn n))"
  by (cases n) simp

lemma all_paths_all_nodes: "all_paths n = map path (all_nodes n)"
proof (induction n rule: all_paths.induct)
  case (1 t p k ks c l cm ch)
  have "concat (map all_paths ch) = map path (concat (map all_nodes ch))"
    using "1.IH" by (induction ch) auto
  then show ?case by simp
qed

lemma all_paths_infos: "all_paths n = map fst (infos n)"
  by (simp add: all_paths_all_nodes infos_def node_info_def comp_def)

lemma preorder_leaves_all_nodes: "preorder_leaves n = filter is_leaf (all_nodes n)"
proof (induction n rule: preorder_leaves.induct)
  case (1 t p k ks c l cm ch)
  have "concat (map preorder_leaves ch) = filter is_leaf (concat (map all_nodes ch))"
    using "1.IH" by (induction ch) auto
  then show ?case by simp
qed

lemma leaf_childless_sel:
  "leaf_childless n = ((if is_leaf n then nn n = [] else True) \<and> list_all leaf_childless (nn n))"
  by (cases n) simp

lemma paths_ext_sel:
  "paths_ext n = (list_all (\<lambda>c. extends_path (path n) (path c)) (nn n) \<and> list_all paths_ext (nn n))"
  by (cases n) simp

lemma leaf_childless_set_nn [simp]:
  "leaf_childless (set_nn ch n) =
     ((if is_leaf n then ch = [] else True) \<and> list_all leaf_childless ch)"
  by (simp add: leaf_childless_sel [of "set_nn ch n"])

lemma composed_topic_childless [simp]: "leaf_childless (composed_topic p ks)"
  by (simp add: composed_topic_def)

lemma normalize_childless:
  "normalize_anno_tree pth node idx = Inr (node', idx') \<Longrightarrow> leaf_childless node'"
  "normalize_loop pth node ch nnn b idx = Inr (node', idx') \<Longrightarrow>
     list_all leaf_childless nnn \<Longrightarrow> (is_leaf node \<longrightarrow> nnn = []) \<Longrightarrow> leaf_childless node'"
proof (induction pth node idx and pth node ch nnn b idx arbitrary: node' idx' and node' idx'
    rule: normalize_anno_tree_normalize_loop.induct)
  case (1 pth node anno_index)
  from "1.prems"(1) obtain i1 where r: "register_anno_node anno_index pth = Inr i1"
    and l: "normalize_loop pth (set_is_leaf (list_all is_utterance (nn node)) (set_path pth node))
            (nn node) [] 0 i1 = Inr (node', idx')"
    by (auto simp: normalize_anno_tree.simps split: sum.splits)
  from "1.IH" [OF r l] show ?case by simp
next
  case (2 pth node normalized_nn branch_id anno_index)
  then show ?case by auto
next
  case (3 pth node child rest normalized_nn branch_id anno_index)
  show ?case
  proof (cases "is_utterance child")
    case True
    show ?thesis
    proof (cases "is_leaf node")
      case l: True
      with True "3.prems" show ?thesis by auto
    next
      case l: False
      let ?p = "pth @ ''.'' @ str_nat branch_id"
      let ?c = "composed_topic ?p (map key (takeWhile is_utterance (child # rest)))"
      from "3.prems"(1) True l obtain i1 where
        r: "register_anno_node anno_index ?p = Inr i1"
        and lp: "normalize_loop pth node (dropWhile is_utterance rest)
                  (normalized_nn @ [?c]) (branch_id + 1) i1 = Inr (node', idx')"
        by (auto split: sum.splits)
      show ?thesis
      proof (rule "3.IH"(1) [OF True l r lp])
        show "list_all leaf_childless (normalized_nn @ [?c])" using "3.prems"(2) by simp
        show "is_leaf node \<longrightarrow> normalized_nn @ [?c] = []" using l by simp
      qed
    qed
  next
    case False
    let ?p = "pth @ ''.'' @ str_nat branch_id"
    from "3.prems"(1) False obtain c1 i1 where
      t: "normalize_anno_tree ?p child anno_index = Inr (c1, i1)"
      and lp: "normalize_loop pth (set_is_leaf False node) rest (normalized_nn @ [c1])
               (branch_id + 1) i1 = Inr (node', idx')"
      by (auto split: sum.splits)
    from "3.IH"(2) [OF False t] have c1: "leaf_childless c1" .
    show ?thesis
    proof (rule "3.IH"(3) [OF False t refl lp])
      show "list_all leaf_childless (normalized_nn @ [c1])" using "3.prems"(2) c1 by simp
      show "is_leaf (set_is_leaf False node) \<longrightarrow> normalized_nn @ [c1] = []" by simp
    qed
  qed
qed

lemma extends_child_path: "extends_path p (child_path p i)"
proof -
  have "list_all (\<lambda>c. c \<in> set digits) (str_nat i)"
    using str_nat_digits [of i] unfolding list_all_iff by blast
  then show ?thesis
    using str_nat_nonempty [of i] by (simp add: extends_path_def child_path_def)
qed

lemma paths_ok_ext: "paths_ok n \<Longrightarrow> paths_ext n"
proof (induction n rule: paths_ok.induct)
  case (1 t p k ks c l cm ch)
  from "1.prems" have m: "map path ch = map (child_path p) [0..<length ch]"
    and a: "list_all paths_ok ch" by simp_all
  have "list_all paths_ext ch"
    using a "1.IH" by (auto simp: list_all_iff)
  moreover have "list_all (\<lambda>n. extends_path p (path n)) ch"
  proof -
    have "\<forall>q \<in> set (map path ch). extends_path p q"
      unfolding m using extends_child_path by auto
    then show ?thesis by (auto simp: list_all_iff)
  qed
  ultimately show ?case by simp
qed

text \<open>A leaf carries as many utterances as keys.\<close>

definition balanced_info :: "string \<times> bool \<times> string list \<times> 'u list \<Rightarrow> bool" where
  "balanced_info i = (case i of (p, l, ks, c) \<Rightarrow> if l then length c = length ks else True)"

lemma infos_Node:
  "infos (AnnoTreeNode t p k ks c l cm ch) = (p, l, ks, c) # concat (map infos ch)"
proof -
  have "map node_info (concat (map all_nodes ch)) = concat (map infos ch)"
    by (induction ch) (auto simp: infos_def)
  then show ?thesis by (simp add: infos_def node_info_def)
qed

lemma attach_keys_lengths:
  "attach_keys idx p ks (fk, cv, dup, logs) = Inr (fk', cv', st') \<Longrightarrow>
   length cv = length fk \<Longrightarrow> length cv' = length fk'"
proof (induction ks arbitrary: fk cv dup logs)
  case Nil
  then show ?case by simp
next
  case (Cons k rest)
  from Cons.prems(1) obtain spk utt_key where sp: "py_split k '':'' = [spk, utt_key]"
    by (auto split: list.splits)
  from Cons.prems(1) sp obtain utts where d: "dict_get idx spk = Inr utts"
    by (auto split: sum.splits)
  show ?case
  proof (cases "map_of utts utt_key")
    case None
    with Cons.prems(1) sp d have
      "attach_keys idx p rest (fk, cv, dup, logs) = Inr (fk', cv', st')"
      by simp
    from this Cons.prems(2) show ?thesis by (rule Cons.IH)
  next
    case (Some utt)
    with Cons.prems(1) sp d have rec:
      "attach_keys idx p rest (fk @ [k], cv @ [utt], AList.update k p dup,
          logs @ (case map_of dup k of None \<Rightarrow> []
                  | Some previous \<Rightarrow> [duplicate_warning k p previous])) = Inr (fk', cv', st')"
      by simp
    have "length (cv @ [utt]) = length (fk @ [k])" using Cons.prems(2) by simp
    with rec show ?thesis by (rule Cons.IH)
  qed
qed


lemma list_all_path_cong:
  "map path xs = map path ys \<Longrightarrow>
   list_all (\<lambda>m. P (path m)) xs = list_all (\<lambda>m. P (path m)) ys"
proof -
  assume a: "map path xs = map path ys"
  have "list_all (\<lambda>m. P (path m)) xs = list_all P (map path xs)"
    by (simp add: list.pred_map comp_def)
  also have "\<dots> = list_all P (map path ys)" by (simp only: a)
  also have "\<dots> = list_all (\<lambda>m. P (path m)) ys"
    by (simp add: list.pred_map comp_def)
  finally show ?thesis .
qed

lemma list_all_concat_infos:
  "list_all (\<lambda>m. list_all Q (infos m)) ms \<Longrightarrow> list_all Q (concat (map infos ms))"
  by (induction ms) auto

lemma attach_shape:
  "attach_tree idx n st = Inr (n', st') \<Longrightarrow>
     path n' = path n \<and> all_paths n' = all_paths n \<and> paths_ext n' = paths_ext n \<and>
     leaf_childless n' = leaf_childless n \<and> list_all balanced_info (infos n')"
  "attach_forest idx ns st = Inr (ns', st') \<Longrightarrow>
     map path ns' = map path ns \<and> map all_paths ns' = map all_paths ns \<and>
     list_all paths_ext ns' = list_all paths_ext ns \<and>
     list_all leaf_childless ns' = list_all leaf_childless ns \<and>
     list_all (\<lambda>m. list_all balanced_info (infos m)) ns'"
proof (induction idx n st and idx ns st arbitrary: n' st' and ns' st'
    rule: attach_tree_attach_forest.induct)
  case (1 idx t p k ks c l cm ch st)
  show ?case
  proof (cases l)
    case True
    from "1.prems" True obtain fk cv st1 ch' where
      a: "attach_keys idx p ks ([], [], fst st, snd st) = Inr (fk, cv, st1)"
      and f: "attach_forest idx ch st1 = Inr (ch', st')"
      and n': "n' = AnnoTreeNode t p k fk cv l cm ch'"
      by (auto split: sum.splits)
    from attach_keys_lengths [OF a] have len: "length cv = length fk" by simp
    from "1.IH"(1) [OF True a refl refl f]
    have ih: "map path ch' = map path ch" "map all_paths ch' = map all_paths ch"
      "list_all paths_ext ch' = list_all paths_ext ch"
      "list_all leaf_childless ch' = list_all leaf_childless ch"
      "list_all (\<lambda>m. list_all balanced_info (infos m)) ch'"
      by simp_all
    have e: "list_all (\<lambda>m. extends_path p (path m)) ch' = list_all (\<lambda>m. extends_path p (path m)) ch"
      using ih(1) by (rule list_all_path_cong)
    have nil: "(ch' = []) = (ch = [])"
    proof -
      have "length (map path ch') = length (map path ch)" by (simp only: ih(1))
      then have "length ch' = length ch" by simp
      then show ?thesis by (cases ch'; cases ch) simp_all
    qed
    have b: "list_all balanced_info (concat (map infos ch'))"
      using ih(5) by (rule list_all_concat_infos)
    have own: "balanced_info (p, l, fk, cv)"
      using len by (simp add: balanced_info_def)
    show ?thesis
      using ih e nil b own by (simp add: n' infos_Node True)
  next
    case False
    from "1.prems" False obtain ch' where
      f: "attach_forest idx ch st = Inr (ch', st')"
      and n': "n' = AnnoTreeNode t p k ks c l cm ch'"
      by (auto split: sum.splits)
    from "1.IH"(2) [OF False f]
    have ih: "map path ch' = map path ch" "map all_paths ch' = map all_paths ch"
      "list_all paths_ext ch' = list_all paths_ext ch"
      "list_all leaf_childless ch' = list_all leaf_childless ch"
      "list_all (\<lambda>m. list_all balanced_info (infos m)) ch'"
      by simp_all
    have e: "list_all (\<lambda>m. extends_path p (path m)) ch' = list_all (\<lambda>m. extends_path p (path m)) ch"
      using ih(1) by (rule list_all_path_cong)
    have b: "list_all balanced_info (concat (map infos ch'))"
      using ih(5) by (rule list_all_concat_infos)
    have own: "balanced_info (p, l, ks, c)"
      using False by (simp add: balanced_info_def)
    show ?thesis
      using ih e b own by (simp add: n' infos_Node False)
  qed
next
  case (2 idx st)
  then show ?case by simp
next
  case (3 idx n ns st)
  from "3.prems" obtain m st1 ms where
    t: "attach_tree idx n st = Inr (m, st1)"
    and f: "attach_forest idx ns st1 = Inr (ms, st')"
    and ns': "ns' = m # ms"
    by (auto split: sum.splits)
  from "3.IH"(1) [OF t] "3.IH"(2) [OF t refl f]
  show ?case by (simp add: ns')
qed

lemma prune_path [simp]: "path (prune pp p t) = path t"
  by (cases t) simp

lemma prune_paths_ext: "paths_ext t \<Longrightarrow> paths_ext (prune pp p t)"
proof (induction pp p t rule: prune.induct)
  case (1 pp p t q k ks c l cm ch)
  show ?case
  proof (cases "q = pp")
    case True
    with "1.prems" show ?thesis by (auto simp: list_all_iff)
  next
    case False
    have "list_all paths_ext (map (prune pp p) ch)"
      using "1.IH" [OF False] "1.prems" by (auto simp: list_all_iff)
    moreover have "list_all (\<lambda>n. extends_path q (path n)) (map (prune pp p) ch)"
      using "1.prems" by (auto simp: list_all_iff)
    ultimately show ?thesis using False by simp
  qed
qed

lemma prune_childless: "leaf_childless t \<Longrightarrow> leaf_childless (prune pp p t)"
proof (induction pp p t rule: prune.induct)
  case (1 pp p t q k ks c l cm ch)
  show ?case
  proof (cases "q = pp")
    case True
    with "1.prems" show ?thesis by (auto simp: list_all_iff split: if_splits)
  next
    case False
    have "list_all leaf_childless (map (prune pp p) ch)"
      using "1.IH" [OF False] "1.prems" by (auto simp: list_all_iff)
    then show ?thesis using False "1.prems" by (auto split: if_splits)
  qed
qed

lemma child_in_all_nodes:
  "n \<in> set (all_nodes t) \<Longrightarrow> c \<in> set (nn n) \<Longrightarrow> c \<in> set (all_nodes t)"
proof (induction t rule: all_nodes.induct)
  case (1 t p k ks cv l cm ch)
  from "1.prems"(1) consider "n = AnnoTreeNode t p k ks cv l cm ch"
    | x where "x \<in> set ch" "n \<in> set (all_nodes x)"
    by auto
  then show ?case
  proof cases
    case 1
    with "1.prems"(2) have "c \<in> set ch" by simp
    moreover have "c \<in> set (all_nodes c)" by (subst all_nodes_sel) simp
    ultimately show ?thesis by auto
  next
    case 2
    from "1.IH" [OF 2(1) 2(2) "1.prems"(2)] 2(1) show ?thesis by auto
  qed
qed

lemma path_is_child:
  "p \<in> set (all_paths t) \<Longrightarrow> p \<noteq> path t \<Longrightarrow>
   \<exists>n \<in> set (all_nodes t). \<exists>c \<in> set (nn n). path c = p"
proof (induction t rule: all_paths.induct)
  case (1 t q k ks cv l cm ch)
  from "1.prems" obtain x where x: "x \<in> set ch" "p \<in> set (all_paths x)"
    by auto
  show ?case
  proof (cases "p = path x")
    case True
    with x(1) show ?thesis by auto
  next
    case False
    from "1.IH" [OF x(1) x(2) False] obtain n c where
      "n \<in> set (all_nodes x)" "c \<in> set (nn n)" "path c = p" by blast
    with x(1) show ?thesis by auto
  qed
qed

lemma all_nodes_child_subset:
  "x \<in> set (nn t) \<Longrightarrow> set (all_nodes x) \<subseteq> set (all_nodes t)"
  by (subst (2) all_nodes_sel) auto

lemma distinct_child:
  "distinct (all_paths t) \<Longrightarrow> x \<in> set (nn t) \<Longrightarrow>
   distinct (all_paths x) \<and> path t \<notin> set (all_paths x)"
  by (subst (asm) all_paths_sel) (auto simp: distinct_concat_iff)

lemma prune_infos:
  assumes "distinct (all_paths t)" "path t \<noteq> p"
    and "\<forall>n \<in> set (all_nodes t). \<forall>c \<in> set (nn n). path c = p \<longrightarrow> path n = pp \<and> nn c = []"
  shows "infos (prune pp p t) = filter (\<lambda>i. fst i \<noteq> p) (infos t)"
  using assms
proof (induction pp p t rule: prune.induct)
  case (1 pp p t q k ks cv l cm ch)
  let ?t = "AnnoTreeNode t q k ks cv l cm ch"
  have self: "?t \<in> set (all_nodes ?t)" by simp
  have qp: "q \<noteq> p" using "1.prems"(2) by simp
  show ?case
  proof (cases "q = pp")
    case True
    have each: "(if path x \<noteq> p then infos x else []) = filter (\<lambda>i. fst i \<noteq> p) (infos x)"
      if x: "x \<in> set ch" for x
    proof (cases "path x = p")
      case px: True
      from "1.prems"(3) self x px have "nn x = []" by auto
      then have "infos x = [node_info x]"
        by (simp add: infos_def all_nodes_sel [of x])
      then show ?thesis using px by (simp add: node_info_def)
    next
      case px: False
      have "p \<notin> set (all_paths x)"
      proof
        assume "p \<in> set (all_paths x)"
        from path_is_child [OF this] px obtain n c where
          n: "n \<in> set (all_nodes x)" and c: "c \<in> set (nn n)" "path c = p" by blast
        from n x have "n \<in> set (all_nodes ?t)" by auto
        with "1.prems"(3) c have "path n = pp" by blast
        moreover from n have "path n \<in> set (all_paths x)"
          by (auto simp: all_paths_all_nodes)
        moreover from distinct_child [OF "1.prems"(1), of x] x
        have "q \<notin> set (all_paths x)" by simp
        ultimately show False using True by simp
      qed
      then have "filter (\<lambda>i. fst i \<noteq> p) (infos x) = infos x"
        by (auto simp: all_paths_infos filter_id_conv)
      then show ?thesis using px by simp
    qed
    have "concat (map infos (filter (\<lambda>n. path n \<noteq> p) ch)) =
          concat (map (\<lambda>x. if path x \<noteq> p then infos x else []) ch)"
      by (induction ch) auto
    also have "\<dots> = concat (map (\<lambda>x. filter (\<lambda>i. fst i \<noteq> p) (infos x)) ch)"
      using each by (auto intro!: arg_cong [where f = concat] map_cong)
    also have "\<dots> = filter (\<lambda>i. fst i \<noteq> p) (concat (map infos ch))"
      by (induction ch) auto
    finally show ?thesis using True qp by (simp add: infos_Node)
  next
    case False
    have each: "infos (prune pp p x) = filter (\<lambda>i. fst i \<noteq> p) (infos x)"
      if x: "x \<in> set ch" for x
    proof (rule "1.IH" [OF False x])
      from distinct_child [OF "1.prems"(1), of x] x show "distinct (all_paths x)" by simp
      show "path x \<noteq> p"
      proof
        assume "path x = p"
        with "1.prems"(3) self x have "q = pp" by auto
        with False show False by simp
      qed
      show "\<forall>n\<in>set (all_nodes x). \<forall>c\<in>set (nn n). path c = p \<longrightarrow> path n = pp \<and> nn c = []"
        using "1.prems"(3) x by auto
    qed
    have "concat (map infos (map (prune pp p) ch)) =
          concat (map (\<lambda>x. filter (\<lambda>i. fst i \<noteq> p) (infos x)) ch)"
      using each by (auto intro!: arg_cong [where f = concat] map_cong simp: comp_def)
    also have "\<dots> = filter (\<lambda>i. fst i \<noteq> p) (concat (map infos ch))"
      by (induction ch) auto
    finally show ?thesis using False qp by (simp add: infos_Node)
  qed
qed

lemma extends_parent: "extends_path p q \<Longrightarrow> get_parent_path q = p"
proof -
  assume e: "extends_path p q"
  let ?seg = "drop (length p + 1) q"
  from e have tk: "take (length p + 1) q = p @ ''.''"
    unfolding extends_path_def by simp
  have "q = take (length p + 1) q @ ?seg" by simp
  then have q: "q = p @ ''.'' @ ?seg" by (simp only: tk append_assoc)
  from e have "set ?seg \<subseteq> set digits"
    unfolding extends_path_def list_all_iff by blast
  with dot_not_digit have "CHR ''.'' \<notin> set ?seg" by blast
  from get_parent_path_child [OF this, of p] q show ?thesis by simp
qed

lemma extends_nonempty: "extends_path p q \<Longrightarrow> q \<noteq> []"
  by (auto simp: extends_path_def)

lemma paths_ext_nodes:
  "paths_ext t \<Longrightarrow> n \<in> set (all_nodes t) \<Longrightarrow> c \<in> set (nn n) \<Longrightarrow>
   extends_path (path n) (path c)"
proof (induction t rule: all_nodes.induct)
  case (1 t p k ks cv l cm ch)
  from "1.prems"(2) consider "n = AnnoTreeNode t p k ks cv l cm ch"
    | x where "x \<in> set ch" "n \<in> set (all_nodes x)"
    by auto
  then show ?case
  proof cases
    case 1
    with "1.prems"(1,3) show ?thesis by (auto simp: list_all_iff)
  next
    case 2
    from "1.prems"(1) 2(1) have "paths_ext x" by (auto simp: list_all_iff)
    from "1.IH" [OF 2(1) this 2(2) "1.prems"(3)] show ?thesis .
  qed
qed

lemma leaf_childless_nodes:
  "leaf_childless t \<Longrightarrow> n \<in> set (all_nodes t) \<Longrightarrow> is_leaf n \<Longrightarrow> nn n = []"
proof (induction t rule: all_nodes.induct)
  case (1 t p k ks cv l cm ch)
  from "1.prems"(2) consider "n = AnnoTreeNode t p k ks cv l cm ch"
    | x where "x \<in> set ch" "n \<in> set (all_nodes x)"
    by auto
  then show ?case
  proof cases
    case 1
    with "1.prems"(1,3) show ?thesis by (auto split: if_splits)
  next
    case 2
    from "1.prems"(1) 2(1) have "leaf_childless x" by (auto simp: list_all_iff)
    from "1.IH" [OF 2(1) this 2(2) "1.prems"(3)] show ?thesis .
  qed
qed

lemma paths_nonempty:
  assumes "paths_ext t" "path t \<noteq> []"
  shows "[] \<notin> set (all_paths t)"
proof
  assume "[] \<in> set (all_paths t)"
  from path_is_child [OF this] assms(2) obtain n c where
    n: "n \<in> set (all_nodes t)" and c: "c \<in> set (nn n)" and pc: "path c = []" by auto
  from paths_ext_nodes [OF assms(1) n c] pc have "extends_path (path n) []" by simp
  then show False by (simp add: extends_path_def)
qed

lemma distinct_info:
  assumes "distinct (all_paths t)" "i \<in> set (infos t)" "j \<in> set (infos t)" "fst i = fst j"
  shows "i = j"
proof -
  from assms(1) have "distinct (map fst (infos t))" by (simp add: all_paths_infos)
  then have "inj_on fst (set (infos t))" by (rule distinct_map [THEN iffD1, THEN conjunct2])
  with assms(2-4) show ?thesis by (auto dest: inj_onD)
qed

lemma delete_anno_leaf_Inr:
  assumes "delete_anno_leaf (t, idx, logs) p = Inr (t', idx', logs')"
  shows "p \<in> set idx" "get_parent_path p \<in> set idx"
    "t' = prune (get_parent_path p) p t" "idx' = remove1 p idx"
proof -
  show 1: "p \<in> set idx"
  proof (rule ccontr)
    assume "p \<notin> set idx"
    then have "delete_anno_leaf (t, idx, logs) p = Inl KeyError"
      unfolding delete_anno_leaf_def by simp
    with assms show False by simp
  qed
  show 2: "get_parent_path p \<in> set idx"
  proof (rule ccontr)
    assume "get_parent_path p \<notin> set idx"
    with 1 have "delete_anno_leaf (t, idx, logs) p = Inl KeyError"
      unfolding delete_anno_leaf_def by simp
    with assms show False by simp
  qed
  from 1 2 have "delete_anno_leaf (t, idx, logs) p =
      Inr (prune (get_parent_path p) p t, remove1 p idx,
           logs @ [LogInfo (''Deleting '' @ p)]
             @ (if (case find_node (get_parent_path p) (prune (get_parent_path p) p t) of
                      Some parent \<Rightarrow> nn parent = [] | None \<Rightarrow> False)
                then [LogError ''Unsupported case: Parent node now has no children.'']
                else []))"
    unfolding delete_anno_leaf_def Let_def by simp
  with assms show "t' = prune (get_parent_path p) p t" "idx' = remove1 p idx"
    by simp_all
qed

lemma filter_absent: "x \<notin> set xs \<Longrightarrow> filter (\<lambda>y. y \<noteq> x) xs = xs"
  by (induction xs) auto

lemma remove1_filter: "distinct xs \<Longrightarrow> remove1 x xs = filter (\<lambda>y. y \<noteq> x) xs"
  by (induction xs) (auto simp: filter_absent)

lemma delete_step:
  assumes d: "distinct (all_paths t)" and i: "idx = all_paths t" and e: "paths_ext t"
    and l: "leaf_childless t" and r: "path t = ''*''"
    and leafp: "(p, True, ks, cv) \<in> set (infos t)"
    and ok: "delete_anno_leaf (t, idx, logs) p = Inr (t', idx', logs')"
  shows "infos t' = filter (\<lambda>i. fst i \<noteq> p) (infos t)" and "idx' = all_paths t'"
    and "distinct (all_paths t')" and "paths_ext t'" and "leaf_childless t'" and "path t' = ''*''"
proof -
  let ?pp = "get_parent_path p"
  from delete_anno_leaf_Inr [OF ok]
  have pin: "p \<in> set idx" and ppin: "?pp \<in> set idx"
    and t': "t' = prune ?pp p t" and idx': "idx' = remove1 p idx"
    by simp_all
  have ne: "[] \<notin> set (all_paths t)"
    using e r by (intro paths_nonempty) simp_all
  have proot: "path t \<noteq> p"
  proof
    assume "path t = p"
    with r have "p = ''*''" by simp
    then have "?pp = []" by (simp only: get_parent_path_star)
    with ppin i ne show False by simp
  qed
  have par: "\<forall>n \<in> set (all_nodes t). \<forall>c \<in> set (nn n). path c = p \<longrightarrow> path n = ?pp \<and> nn c = []"
  proof (intro ballI impI)
    fix n c assume n: "n \<in> set (all_nodes t)" and c: "c \<in> set (nn n)" and pc: "path c = p"
    from paths_ext_nodes [OF e n c] have "extends_path (path n) p" using pc by simp
    from extends_parent [OF this] have pn: "path n = ?pp" by simp
    from child_in_all_nodes [OF n c] have cin: "c \<in> set (all_nodes t)" .
    then have "node_info c \<in> set (infos t)" by (simp add: infos_def)
    from distinct_info [OF d this leafp] pc have "node_info c = (p, True, ks, cv)"
      by (simp add: node_info_def)
    then have "is_leaf c" by (simp add: node_info_def)
    from leaf_childless_nodes [OF l cin this] pn show "path n = ?pp \<and> nn c = []" by simp
  qed
  from prune_infos [OF d proot par] t'
  show inf: "infos t' = filter (\<lambda>i. fst i \<noteq> p) (infos t)" by simp
  have ap: "all_paths t' = filter (\<lambda>q. q \<noteq> p) (all_paths t)"
    by (simp add: all_paths_infos inf filter_map comp_def)
  from d have "remove1 p (all_paths t) = filter (\<lambda>q. q \<noteq> p) (all_paths t)"
    by (rule remove1_filter)
  with idx' i ap show "idx' = all_paths t'" by simp
  from d ap show "distinct (all_paths t')" by simp
  from e t' show "paths_ext t'" by (simp add: prune_paths_ext)
  from l t' show "leaf_childless t'" by (simp add: prune_childless)
  from r t' show "path t' = ''*''" by simp
qed

lemma delete_fold:
  assumes "distinct (all_paths t)" "idx = all_paths t" "paths_ext t" "leaf_childless t"
    and "path t = ''*''"
    and "\<forall>p \<in> set ps. \<exists>ks cv. (p, True, ks, cv) \<in> set (infos t)" and "distinct ps"
    and "delete_leaves ps (t, idx, logs) = Inr (t', idx', logs')"
  shows "infos t' = filter (\<lambda>i. fst i \<notin> set ps) (infos t) \<and> idx' = all_paths t' \<and>
         distinct (all_paths t') \<and> paths_ext t' \<and> leaf_childless t' \<and> path t' = ''*''"
  using assms
proof (induction ps arbitrary: t idx logs)
  case Nil
  from Nil.prems(8) have "t' = t" "idx' = idx" by simp_all
  with Nil.prems(1-5) show ?case by simp
next
  case (Cons p ps)
  from Cons.prems(8) obtain t1 idx1 logs1 where
    st: "delete_anno_leaf (t, idx, logs) p = Inr (t1, idx1, logs1)"
    and rest: "delete_leaves ps (t1, idx1, logs1) = Inr (t', idx', logs')"
    by (auto split: sum.splits)
  from Cons.prems(6) obtain ks cv where leafp: "(p, True, ks, cv) \<in> set (infos t)"
    by auto
  note step = delete_step [OF Cons.prems(1-5) leafp st]
  have leaves1: "\<forall>q \<in> set ps. \<exists>ks cv. (q, True, ks, cv) \<in> set (infos t1)"
  proof
    fix q assume q: "q \<in> set ps"
    with Cons.prems(6) obtain ks' cv' where "(q, True, ks', cv') \<in> set (infos t)" by auto
    moreover from q Cons.prems(7) have "q \<noteq> p" by auto
    ultimately have "(q, True, ks', cv') \<in> set (infos t1)" by (simp add: step(1))
    then show "\<exists>ks cv. (q, True, ks, cv) \<in> set (infos t1)" by blast
  qed
  from Cons.prems(7) have dps: "distinct ps" by simp
  from Cons.IH [OF step(3) step(2) step(4) step(5) step(6) leaves1 dps rest]
  have ih: "infos t' = filter (\<lambda>i. fst i \<notin> set ps) (infos t1)" "idx' = all_paths t'"
    "distinct (all_paths t')" "paths_ext t'" "leaf_childless t'" "path t' = ''*''"
    by simp_all
  have "filter (\<lambda>i. fst i \<notin> set ps) (filter (\<lambda>i. fst i \<noteq> p) (infos t)) =
        filter (\<lambda>i. fst i \<notin> set (p # ps)) (infos t)"
    by (auto intro: filter_cong)
  with ih step(1) show ?case by simp
qed

text \<open>A leaf carries at least one key, and as many utterances as keys.\<close>

definition ok_info :: "string \<times> bool \<times> string list \<times> 'u list \<Rightarrow> bool" where
  "ok_info i = (case i of (p, l, ks, c) \<Rightarrow> if l then ks \<noteq> [] \<and> length c = length ks else True)"

lemma leaves_ok_infos: "leaves_ok t = list_all ok_info (infos t)"
proof (induction t rule: leaves_ok.induct)
  case (1 t p k ks c l cm ch)
  have "list_all ok_info (concat (map infos ch)) = list_all leaves_ok ch"
    using "1.IH" by (induction ch) auto
  moreover have "ok_info (p, l, ks, c) = (if l then ks \<noteq> [] \<and> length c = length ks else True)"
    by (simp add: ok_info_def)
  ultimately show ?case by (simp add: infos_Node)
qed

lemma icsi_load_shape:
  assumes "icsi_load_anno idx built = Inr (root, anno_index, logs)"
  shows "leaves_ok root" and "distinct anno_index" and "anno_index = all_paths root"
    and "path root = ''*''" and "paths_ext root" and "leaf_childless root"
proof -
  from assms obtain n1 i1 n2 dup logs2 logs3 where
    nz: "normalize_anno_tree ''*'' built [] = Inr (n1, i1)"
    and at: "attach_tree idx n1 ([], []) = Inr (n2, dup, logs2)"
    and fz: "finalize_anno_tree i1 n2 = Inr (root, anno_index, logs3)"
    by (auto simp: icsi_load_anno_def split: sum.splits)
  from normalize_paths(1) [OF nz] have n1: "path n1 = ''*''" "paths_ok n1" "i1 = all_paths n1"
    by simp_all
  from normalize_distinct(1) [OF nz] have d1: "distinct i1" by simp
  from normalize_childless(1) [OF nz] have c1: "leaf_childless n1" .
  from attach_shape(1) [OF at] have n2: "path n2 = path n1" "all_paths n2 = all_paths n1"
    "paths_ext n2 = paths_ext n1" "leaf_childless n2 = leaf_childless n1"
    "list_all balanced_info (infos n2)"
    by simp_all
  let ?ps = "map path (filter (\<lambda>leaf. keys leaf = []) (discover_anno_leaves n2))"
  have ps_eq: "?ps = map path (filter (\<lambda>n. is_leaf n \<and> keys n = []) (all_nodes n2))"
    by (simp add: discover_is_preorder preorder_leaves_all_nodes conj_commute)
  have d2: "distinct (all_paths n2)" using d1 n1(3) n2(2) by simp
  have dps: "distinct ?ps"
    unfolding ps_eq using d2 by (simp add: all_paths_all_nodes distinct_map_filter)
  have lps: "\<forall>p \<in> set ?ps. \<exists>ks cv. (p, True, ks, cv) \<in> set (infos n2)"
  proof
    fix p assume "p \<in> set ?ps"
    then obtain n where n: "n \<in> set (all_nodes n2)" "is_leaf n" "path n = p"
      unfolding ps_eq by auto
    then have "node_info n \<in> set (infos n2)" by (simp add: infos_def)
    with n show "\<exists>ks cv. (p, True, ks, cv) \<in> set (infos n2)"
      by (auto simp: node_info_def)
  qed
  from fz have dl: "delete_leaves ?ps (n2, i1, []) = Inr (root, anno_index, logs3)"
    by (simp add: finalize_anno_tree_def)
  have fin: "infos root = filter (\<lambda>i. fst i \<notin> set ?ps) (infos n2) \<and>
       anno_index = all_paths root \<and> distinct (all_paths root) \<and> paths_ext root \<and>
       leaf_childless root \<and> path root = ''*''"
  proof (rule delete_fold [OF d2 _ _ _ _ lps dps dl])
    show "i1 = all_paths n2" using n1(3) n2(2) by simp
    show "paths_ext n2" using n2(3) paths_ok_ext [OF n1(2)] by simp
    show "leaf_childless n2" using n2(4) c1 by simp
    show "path n2 = ''*''" using n2(1) n1(1) by simp
  qed
  then show "anno_index = all_paths root" "distinct anno_index" "path root = ''*''"
    "paths_ext root" "leaf_childless root"
    by simp_all
  have "ok_info i" if i: "i \<in> set (infos root)" for i
  proof -
    from i fin have i2: "i \<in> set (infos n2)" and ip: "fst i \<notin> set ?ps" by simp_all
    from n2(5) i2 have b: "balanced_info i" by (simp add: list_all_iff)
    obtain p l ks c where ii: "i = (p, l, ks, c)" by (cases i)
    show ?thesis
    proof (cases l)
      case False
      then show ?thesis by (simp add: ok_info_def ii)
    next
      case True
      have "ks \<noteq> []"
      proof
        assume "ks = []"
        from i2 obtain n where n: "n \<in> set (all_nodes n2)" "node_info n = i"
          by (auto simp: infos_def)
        with ii True \<open>ks = []\<close> have "is_leaf n" "keys n = []" "path n = p"
          by (auto simp: node_info_def)
        with n(1) have "p \<in> set ?ps" unfolding ps_eq by auto
        with ip ii show False by simp
      qed
      with b True show ?thesis by (simp add: ok_info_def balanced_info_def ii)
    qed
  qed
  then show "leaves_ok root" by (simp add: leaves_ok_infos list_all_iff)
qed

lemma leaves_ok_convo:
  assumes "leaves_ok t" "leaf \<in> set (discover_anno_leaves t)"
  shows "convo leaf \<noteq> []"
proof -
  from assms(2) have n: "leaf \<in> set (all_nodes t)" "is_leaf leaf"
    by (simp_all add: discover_is_preorder preorder_leaves_all_nodes)
  then have "node_info leaf \<in> set (infos t)" by (simp add: infos_def)
  with assms(1) have "ok_info (node_info leaf)"
    by (simp add: leaves_ok_infos list_all_iff)
  with n(2) show ?thesis by (auto simp: ok_info_def node_info_def)
qed

lemma attach_leaves_append:
  "attach_leaves idx (xs @ ys) st =
     (case attach_leaves idx xs st of
        Inl e \<Rightarrow> Inl e
      | Inr (xs', st1) \<Rightarrow>
          (case attach_leaves idx ys st1 of
             Inl e \<Rightarrow> Inl e
           | Inr (ys', st2) \<Rightarrow> Inr (xs' @ ys', st2)))"
proof (induction xs arbitrary: st)
  case Nil
  show ?case by (auto split: sum.splits)
next
  case (Cons x xs)
  obtain dup logs where st: "st = (dup, logs)" by (cases st)
  show ?case
    unfolding st by (simp add: Cons.IH split: sum.splits prod.splits)
qed

text \<open>
  What resolution assigns to a leaf, and the agreement of the tree-shaped resolution
  with the loop of \<^verbatim>\<open>attach_meeting_notes\<close> over the discovered leaves: the same
  error, or the same keys and utterances leaf by leaf and the same final state.
\<close>

definition payload :: "'u AnnoTreeNode \<Rightarrow> string \<times> string list \<times> 'u list" where
  "payload n = (path n, keys n, convo n)"

lemma attach_tree_leaves:
  "case attach_tree idx n st of
     Inl e \<Rightarrow> attach_leaves idx (preorder_leaves n) st = Inl e
   | Inr (n', st') \<Rightarrow>
       \<exists>ls. attach_leaves idx (preorder_leaves n) st = Inr (ls, st') \<and>
            map payload ls = map payload (preorder_leaves n')"
  "case attach_forest idx ns st of
     Inl e \<Rightarrow> attach_leaves idx (concat (map preorder_leaves ns)) st = Inl e
   | Inr (ns', st') \<Rightarrow>
       \<exists>ls. attach_leaves idx (concat (map preorder_leaves ns)) st = Inr (ls, st') \<and>
            map payload ls = map payload (concat (map preorder_leaves ns'))"
proof (induction idx n st and idx ns st rule: attach_tree_attach_forest.induct)
  case (1 idx t p k ks c l cm ch st)
  obtain dup logs where st: "st = (dup, logs)" by (cases st)
  show ?case
  proof (cases l)
    case False
    with "1.IH"(2) [OF False] show ?thesis
      by (auto split: sum.splits)
  next
    case True
    show ?thesis
    proof (cases "attach_keys idx p ks ([], [], dup, logs)")
      case (Inl e)
      with True show ?thesis by (simp add: st)
    next
      case (Inr r)
      obtain fk cv dup1 logs1 where r: "r = (fk, cv, dup1, logs1)" by (cases r) auto
      from "1.IH"(1) [OF True, of "(fk, cv, dup1, logs1)" fk "(cv, dup1, logs1)" cv "(dup1, logs1)"]
        Inr r st
      have ih: "case attach_forest idx ch (dup1, logs1) of
         Inl e \<Rightarrow> attach_leaves idx (concat (map preorder_leaves ch)) (dup1, logs1) = Inl e
       | Inr (ns', st') \<Rightarrow>
           \<exists>ls. attach_leaves idx (concat (map preorder_leaves ch)) (dup1, logs1) = Inr (ls, st') \<and>
                map payload ls = map payload (concat (map preorder_leaves ns'))"
        by simp
      show ?thesis
      proof (cases "attach_forest idx ch (dup1, logs1)")
        case fl: (Inl e)
        with ih True Inr r show ?thesis by (simp add: st)
      next
        case fr: (Inr q)
        obtain ch' st2 where q: "q = (ch', st2)" by (cases q)
        from ih fr q obtain ls where
          al: "attach_leaves idx (concat (map preorder_leaves ch)) (dup1, logs1) = Inr (ls, st2)"
          and m: "map payload ls = map payload (concat (map preorder_leaves ch'))"
          by auto
        show ?thesis
          using True Inr r fr q al m
          by (simp add: st payload_def set_payload_def)
      qed
    qed
  qed
next
  case (2 idx st)
  show ?case by simp
next
  case (3 idx n ns st)
  show ?case
  proof (cases "attach_tree idx n st")
    case (Inl e)
    with "3.IH"(1) show ?thesis by (simp add: attach_leaves_append)
  next
    case (Inr q)
    obtain n' st1 where q: "q = (n', st1)" by (cases q)
    from "3.IH"(1) Inr q obtain ls where
      al: "attach_leaves idx (preorder_leaves n) st = Inr (ls, st1)"
      and m: "map payload ls = map payload (preorder_leaves n')"
      by auto
    note ih2 = "3.IH"(2) [OF Inr [unfolded q] refl]
    show ?thesis
    proof (cases "attach_forest idx ns st1")
      case fl: (Inl e)
      with ih2 Inr q al show ?thesis by (simp add: attach_leaves_append)
    next
      case fr: (Inr q2)
      obtain ns' st2 where q2: "q2 = (ns', st2)" by (cases q2)
      from ih2 fr q2 obtain ls2 where
        al2: "attach_leaves idx (concat (map preorder_leaves ns)) st1 = Inr (ls2, st2)"
        and m2: "map payload ls2 = map payload (concat (map preorder_leaves ns'))"
        by auto
      show ?thesis
        using Inr q fr q2 al al2 m m2 by (simp add: attach_leaves_append)
    qed
  qed
qed

section \<open>Loaded meetings\<close>

text \<open>An index of ICSI utterances in which only the segment \<^verbatim>\<open>s1\<close> of speaker \<^verbatim>\<open>A\<close> exists.\<close>

definition icsi_example_index :: "(string \<times> (string \<times> string) list) list" where
  "icsi_example_index = [(''A'', [(''s1'', ''hello'')])]"

lemma icsi_example_splits:
  "py_split ''A:s1'' '':'' = [''A'', ''s1'']"
  "py_split ''A:s2'' '':'' = [''A'', ''s2'']"
  "py_split ''*.1'' ''.'' = [''*'', ''1'']"
  by (simp_all add: py_split_def py_split_from.simps)

lemma icsi_example_loaded:
  "icsi_load_anno icsi_example_index icsi_example_root =
     Inr (AnnoTreeNode ''root'' ''*'' [] [] [] False False
            [AnnoTreeNode ''topic'' ''*.0'' [] [''A:s1''] [''hello''] True True []],
          [''*'', ''*.0''], [LogInfo ''Deleting *.1''])"
  by (simp add: icsi_load_anno_def icsi_example_normalized icsi_example_index_def
        icsi_example_splits dict_get_def finalize_anno_tree_def discover_is_preorder
        delete_anno_leaf_def get_parent_path_def find_node_def)

text \<open>
  What the specification says of the raw transition vector of a meeting, given the
  convo lists of its leaves in discovery order: one entry per utterance, a first
  entry (when there is one) equal to 0, and from position 1 on the entry 1 exactly
  where the owning leaf changes.
\<close>

definition raw_vector_spec :: "'u list list \<Rightarrow> bool" where
  "raw_vector_spec convos =
     (length (raw_transitions convos) = length (concat convos) \<and>
      (case raw_transitions convos of [] \<Rightarrow> True | first_entry # others \<Rightarrow> first_entry = 0) \<and>
      list_all
        (\<lambda>i. raw_transitions convos ! i =
               (if owners convos ! i \<noteq> owners convos ! (i - 1) then 1 else 0))
        [1..<length (concat convos)])"

lemma raw_vector_spec_nonempty:
  assumes "\<forall>leaf_convo \<in> set convos. leaf_convo \<noteq> []"
  shows "raw_vector_spec convos"
proof -
  note g = raw_transitions_general [OF assms]
  have "case raw_transitions convos of [] \<Rightarrow> True | first_entry # others \<Rightarrow> first_entry = 0"
  proof (cases "raw_transitions convos")
    case Nil
    then show ?thesis by simp
  next
    case (Cons r rs)
    with g have "raw_transitions convos ! 0 = 0" by simp
    with Cons show ?thesis by simp
  qed
  moreover have "list_all
        (\<lambda>i. raw_transitions convos ! i =
               (if owners convos ! i \<noteq> owners convos ! (i - 1) then 1 else 0))
        [1..<length (concat convos)]"
    using g by (simp add: list_all_iff)
  ultimately show ?thesis using g by (simp add: raw_vector_spec_def)
qed

lemma raw_vector_spec_leaves:
  assumes "leaves_ok anno_root"
  shows "raw_vector_spec (map convo (discover_anno_leaves anno_root))"
proof (rule raw_vector_spec_nonempty)
  show "\<forall>leaf_convo \<in> set (map convo (discover_anno_leaves anno_root)). leaf_convo \<noteq> []"
    using leaves_ok_convo [OF assms] by auto
qed

text \<open>
  C3. For every meeting the raw transition vector has one entry per utterance of the
  flattened sequence, its entry at position 0 is 0, and from position 1 on an entry
  is 1 exactly when the owning leaf of the utterance differs from the owning leaf of
  the utterance before it. This holds for the leaves of every ICSI tree that was
  normalised, resolved and finalised, and of every AMI tree that was built, because
  each of their leaves carries at least one utterance; and it holds for any sequence
  of non-empty leaves.
\<close>

theorem raw_transitions_spec:
  "((\<forall>leaf_convo \<in> set convos. leaf_convo \<noteq> []) \<longrightarrow> raw_vector_spec convos) \<and>
   (icsi_load_anno idx built = Inr (icsi_root, icsi_index, logs) \<longrightarrow>
      raw_vector_spec (map convo (discover_anno_leaves icsi_root))) \<and>
   (build_anno E [] ''*'' xml_root = Inr (ami_root, ami_index) \<longrightarrow>
      raw_vector_spec (map convo (discover_anno_leaves ami_root)))"
proof (intro conjI impI)
  assume "\<forall>leaf_convo \<in> set convos. leaf_convo \<noteq> []"
  then show "raw_vector_spec convos" by (rule raw_vector_spec_nonempty)
next
  assume "icsi_load_anno idx built = Inr (icsi_root, icsi_index, logs)"
  from icsi_load_shape(1) [OF this]
  show "raw_vector_spec (map convo (discover_anno_leaves icsi_root))"
    by (rule raw_vector_spec_leaves)
next
  assume "build_anno E [] ''*'' xml_root = Inr (ami_root, ami_index)"
  from build_shape(1) [OF this] have "leaves_ok ami_root" by simp
  then show "raw_vector_spec (map convo (discover_anno_leaves ami_root))"
    by (rule raw_vector_spec_leaves)
qed

theorem raw_transitions_spec_witness:
  "raw_transitions [[CHR ''a'', CHR ''b''], [CHR ''c''], [CHR ''d'', CHR ''e'']] = [0, 0, 1, 1, 0] \<and>
   owners [[CHR ''a'', CHR ''b''], [CHR ''c''], [CHR ''d'', CHR ''e'']] = [0, 0, 1, 2, 2] \<and>
   raw_vector_spec [[CHR ''a'', CHR ''b''], [CHR ''c''], [CHR ''d'', CHR ''e'']] \<and>
   raw_transitions (map convo (discover_anno_leaves
       (fst (projr (icsi_load_anno icsi_example_index icsi_example_root))))) = [0] \<and>
   raw_vector_spec (map convo (discover_anno_leaves
       (fst (projr (icsi_load_anno icsi_example_index icsi_example_root))))) \<and>
   raw_transitions (map convo (discover_anno_leaves
       (fst (projr (build_anno ami_example_env [] ''*'' ami_example_root))))) = [0, 1] \<and>
   raw_vector_spec (map convo (discover_anno_leaves
       (fst (projr (build_anno ami_example_env [] ''*'' ami_example_root)))))"
  using raw_transitions_spec
    [where convos = "[[CHR ''a'', CHR ''b''], [CHR ''c''], [CHR ''d'', CHR ''e'']]"
       and idx = icsi_example_index and built = icsi_example_root
       and icsi_root = "fst (projr (icsi_load_anno icsi_example_index icsi_example_root))"
       and icsi_index = "[''*'', ''*.0'']" and logs = "[LogInfo ''Deleting *.1'']"
       and E = ami_example_env and xml_root = ami_example_root
       and ami_root = "fst (projr (build_anno ami_example_env [] ''*'' ami_example_root))"
       and ami_index = "[''*'', ''*.0'', ''*.1'']"]
  by (simp add: icsi_example_loaded ami_example_built raw_transitions_def owners_def
        discover_is_preorder)

section \<open>Unique paths, one segment per level\<close>

text \<open>
  C5. When the load of a meeting completes, the paths registered in the annotation
  index are pairwise different and are exactly the paths of the nodes of the tree,
  the root carries the path \<^verbatim>\<open>*\<close>, and the path of every other node is the path of
  its parent followed by a dot and one non-empty segment of decimal digits. For the
  AMI builder and for ICSI normalisation the segment of the \<open>i\<close>-th child is
  \<^verbatim>\<open>str(i)\<close>; ICSI finalisation deletes leaves and their index entries and keeps
  the paths of the others. Registering a path that is already in the index ends the
  process.
\<close>

theorem registered_paths_unique:
  "(icsi_load_anno idx built = Inr (final_root, final_index, logs) \<longrightarrow>
      distinct final_index \<and> final_index = all_paths final_root \<and> path final_root = ''*''
      \<and> paths_ext final_root) \<and>
   (normalize_anno_tree ''*'' raw_root [] = Inr (icsi_root, icsi_index) \<longrightarrow>
      distinct icsi_index \<and> icsi_index = all_paths icsi_root \<and> path icsi_root = ''*''
      \<and> paths_ok icsi_root \<and> paths_ext icsi_root) \<and>
   (build_anno E [] ''*'' xml_root = Inr (ami_root, ami_index) \<longrightarrow>
      distinct ami_index \<and> ami_index = all_paths ami_root \<and> path ami_root = ''*''
      \<and> paths_ok ami_root \<and> paths_ext ami_root) \<and>
   (pth \<in> set anno_index \<longrightarrow> register_anno_node anno_index pth = Inl (SystemExit (- 1))) \<and>
   child_path pth i = pth @ ''.'' @ str_nat i \<and>
   str_nat i \<noteq> [] \<and> set (str_nat i) \<subseteq> set digits \<and> CHR ''.'' \<notin> set digits"
proof (intro conjI impI)
  assume l: "icsi_load_anno idx built = Inr (final_root, final_index, logs)"
  from icsi_load_shape(2-5) [OF l]
  show "distinct final_index" "final_index = all_paths final_root" "path final_root = ''*''"
    "paths_ext final_root"
    by simp_all
next
  assume n: "normalize_anno_tree ''*'' raw_root [] = Inr (icsi_root, icsi_index)"
  from normalize_distinct(1) [OF n] show "distinct icsi_index" by simp
  from normalize_paths(1) [OF n]
  show "icsi_index = all_paths icsi_root" "path icsi_root = ''*''" "paths_ok icsi_root"
    by simp_all
  then show "paths_ext icsi_root" by (simp add: paths_ok_ext)
next
  assume b: "build_anno E [] ''*'' xml_root = Inr (ami_root, ami_index)"
  from build_distinct(1) [OF b] show "distinct ami_index" by simp
  from build_shape(1) [OF b]
  show "ami_index = all_paths ami_root" "path ami_root = ''*''" "paths_ok ami_root"
    by simp_all
  then show "paths_ext ami_root" by (simp add: paths_ok_ext)
next
  assume "pth \<in> set anno_index"
  then show "register_anno_node anno_index pth = Inl (SystemExit (- 1))"
    by (simp add: register_anno_node_def)
next
  show "child_path pth i = pth @ ''.'' @ str_nat i" by (simp add: child_path_def)
  show "str_nat i \<noteq> []" by (rule str_nat_nonempty)
  show "set (str_nat i) \<subseteq> set digits" by (rule str_nat_digits)
  show "CHR ''.'' \<notin> set digits" by (rule dot_not_digit)
qed

theorem registered_paths_unique_witness:
  "icsi_load_anno icsi_example_index icsi_example_root =
     Inr (AnnoTreeNode ''root'' ''*'' [] [] [] False False
            [AnnoTreeNode ''topic'' ''*.0'' [] [''A:s1''] [''hello''] True True []],
          [''*'', ''*.0''], [LogInfo ''Deleting *.1'']) \<and>
   normalize_anno_tree ''*'' icsi_example_root [] =
     Inr (AnnoTreeNode ''root'' ''*'' [] [] [] False False
            [AnnoTreeNode ''topic'' ''*.0'' [] [''A:s1''] [] True True [],
             AnnoTreeNode ''topic'' ''*.1'' [] [''A:s2''] [] True False []],
          [''*'', ''*.0'', ''*.1'']) \<and>
   distinct [''*'', ''*.0'', ''*.1''] \<and>
   map_sum id snd (build_anno ami_example_env [] ''*'' ami_example_root)
     = Inr [''*'', ''*.0'', ''*.1''] \<and>
   register_anno_node [''*'', ''*.0''] ''*.0'' = Inl (SystemExit (- 1))"
  using registered_paths_unique
    [where idx = icsi_example_index and built = icsi_example_root
       and final_root = "AnnoTreeNode ''root'' ''*'' [] [] [] False False
            [AnnoTreeNode ''topic'' ''*.0'' [] [''A:s1''] [''hello''] True True []]"
       and final_index = "[''*'', ''*.0'']" and logs = "[LogInfo ''Deleting *.1'']"
       and raw_root = icsi_example_root
       and icsi_root = "AnnoTreeNode ''root'' ''*'' [] [] [] False False
            [AnnoTreeNode ''topic'' ''*.0'' [] [''A:s1''] [] True True [],
             AnnoTreeNode ''topic'' ''*.1'' [] [''A:s2''] [] True False []]"
       and icsi_index = "[''*'', ''*.0'', ''*.1'']"
       and E = ami_example_env and xml_root = ami_example_root
       and ami_root = "fst (projr (build_anno ami_example_env [] ''*'' ami_example_root))"
       and ami_index = "[''*'', ''*.0'', ''*.1'']"
       and pth = "''*.0''" and anno_index = "[''*'', ''*.0'']" and i = 0]
  by (simp add: icsi_example_loaded icsi_example_normalized ami_example_built child_path_def
        str_nat_small register_anno_node_def)

section \<open>Ranges without tokens, in the loaders\<close>

text \<open>
  C8. The claim has the load fail, in both dialects, on a range without a non-gap
  token. The ICSI loader goes on: the segment over the gap gives no utterance and no
  error.
\<close>

theorem empty_range_counterexample:
  "tokens_in (words icsi_gap_words) [0..<0 + 1] = [] \<and>
   load_speaker_utterances plain_prims ''A'' icsi_gap_file icsi_gap_words
     = Inr (icsi_gap_words, [])"
  by (simp add: tokens_in_def icsi_gap_words_def load_speaker_utterances_def collect_segs_def
        icsi_gap_file_def icsi_gap_seg_def load_seg_def dict_get_def nite_id_def key_range_def
        example_splits plain_prims_def list_get_def)

text \<open>
  C8, as amended. In the AMI dialect a gap-only range adds no utterance, and a run of
  segment references that resolves to no utterance at all is a hard error: the
  builder raises \<^verbatim>\<open>NodeNoKeys\<close> for the enclosing element, so that every leaf of a
  tree that was built carries at least one key and as many utterances as keys. In
  the ICSI dialect a segment whose range holds only gaps changes nothing: no
  utterance is produced, no error is raised, and the load goes on; a leaf whose
  keys then all fail to resolve is deleted by the finaliser, so that every leaf of
  a loaded ICSI tree carries at least one key and as many utterances as keys.
\<close>

theorem empty_range_amended:
  "(list_all (\<lambda>i. i < length aws \<and> aws ! i = None) ixs \<longrightarrow>
      split_range utt_content spk meeting aws ixs utt_words utterances
        = Inr (utt_words, utterances)) \<and>
   (\<not> has_pointer child \<and> \<not> has_topic child \<and> has_child child \<and>
    segment_to_utterances E (child # takeWhile has_child rest) = Inr ([], cv) \<longrightarrow>
      build_loop E parent_tag anno_node (child # rest) branch_id anno_index
        = Inl (NodeNoKeys parent_tag)) \<and>
   (build_anno E start_index pth xml_node = Inr (built, anno_index') \<longrightarrow> leaves_ok built) \<and>
   (icsi_load_anno utterance_index normalizable = Inr (loaded, loaded_index, load_logs) \<longrightarrow>
      leaves_ok loaded) \<and>
   (xml_children seg \<noteq> [] \<and>
    dict_get (attrib seg) nite_id = Inr seg_id \<and>
    dict_get (attrib seg) ''starttime'' = Inr seg_start \<and>
    dict_get (attrib seg) ''endtime'' = Inr seg_end \<and>
    dict_get (attrib (hd (xml_children seg))) ''href'' = Inr href \<and>
    key_range (strip_key P) (last (py_split href ''#'')) = Inr (start_key, end_key) \<and>
    dict_get (index wi) start_key = Inr start_idx \<and>
    dict_get (index wi) end_key = Inr end_idx \<and>
    list_all (\<lambda>t. t < length (words wi) \<and> words wi ! t = None) [start_idx..<end_idx + 1] \<longrightarrow>
      load_seg P speaker_name seg (wi, icsi_utterances) = Inr (wi, icsi_utterances))"
proof (intro conjI impI)
  assume "list_all (\<lambda>i. i < length aws \<and> aws ! i = None) ixs"
  then show "split_range utt_content spk meeting aws ixs utt_words utterances
        = Inr (utt_words, utterances)"
    by (rule split_range_gaps)
next
  assume "\<not> has_pointer child \<and> \<not> has_topic child \<and> has_child child \<and>
    segment_to_utterances E (child # takeWhile has_child rest) = Inr ([], cv)"
  then show "build_loop E parent_tag anno_node (child # rest) branch_id anno_index
        = Inl (NodeNoKeys parent_tag)"
    by (intro build_loop_no_keys) simp_all
next
  assume "build_anno E start_index pth xml_node = Inr (built, anno_index')"
  from build_shape(1) [OF this] show "leaves_ok built" by simp
next
  assume "icsi_load_anno utterance_index normalizable = Inr (loaded, loaded_index, load_logs)"
  from icsi_load_shape(1) [OF this] show "leaves_ok loaded" .
next
  assume a: "xml_children seg \<noteq> [] \<and>
    dict_get (attrib seg) nite_id = Inr seg_id \<and>
    dict_get (attrib seg) ''starttime'' = Inr seg_start \<and>
    dict_get (attrib seg) ''endtime'' = Inr seg_end \<and>
    dict_get (attrib (hd (xml_children seg))) ''href'' = Inr href \<and>
    key_range (strip_key P) (last (py_split href ''#'')) = Inr (start_key, end_key) \<and>
    dict_get (index wi) start_key = Inr start_idx \<and>
    dict_get (index wi) end_key = Inr end_idx \<and>
    list_all (\<lambda>t. t < length (words wi) \<and> words wi ! t = None) [start_idx..<end_idx + 1]"
  show "load_seg P speaker_name seg (wi, icsi_utterances) = Inr (wi, icsi_utterances)"
    by (rule load_seg_gaps [where seg_id = seg_id and seg_start = seg_start and seg_end = seg_end
          and href = href and start_key = start_key and end_key = end_key
          and start_idx = start_idx and end_idx = end_idx]) (use a in simp_all)
qed

theorem empty_range_amended_witness:
  "split_range ''w0'' ''A'' ''M'' [None] [0] [] ([] :: nat ami_utterance list)
     = Inr ([], []) \<and>
   segment_to_utterances ami_example_env [ami_gap_child] = Inr ([], []) \<and>
   build_loop ami_example_env ''nite:root'' new_AnnoTreeNode [ami_gap_child] 0 [''*'']
     = Inl (NodeNoKeys ''nite:root'') \<and>
   build_anno ami_example_env [] ''*'' ami_gap_root = Inl (NodeNoKeys ''nite:root'') \<and>
   leaves_ok (fst (projr (build_anno ami_example_env [] ''*'' ami_example_root))) \<and>
   leaves_ok (fst (projr (icsi_load_anno icsi_example_index icsi_example_root))) \<and>
   load_seg plain_prims ''A'' icsi_gap_seg (icsi_gap_words, []) = Inr (icsi_gap_words, [])"
  using empty_range_amended
    [where aws = "[None]" and ixs = "[0]" and utt_content = "''w0''" and spk = "''A''"
       and meeting = "''M''" and utt_words = "[]" and utterances = "[]"
       and child = ami_gap_child and E = ami_example_env and rest = "[]" and cv = "[]"
       and parent_tag = "''nite:root''" and anno_node = new_AnnoTreeNode and branch_id = 0
       and anno_index = "[''*'']" and start_index = "[]" and pth = "''*''"
       and xml_node = ami_example_root
       and built = "fst (projr (build_anno ami_example_env [] ''*'' ami_example_root))"
       and anno_index' = "snd (projr (build_anno ami_example_env [] ''*'' ami_example_root))"
       and seg = icsi_gap_seg and seg_id = "''s1''" and seg_start = "''0.0''"
       and seg_end = "''1.0''" and href = "''Bed.A.words.xml#w1''" and P = plain_prims
       and start_key = "''w1''" and end_key = "''w1''" and wi = icsi_gap_words
       and start_idx = 0 and end_idx = 0 and speaker_name = "''A''" and icsi_utterances = "[]"
       and utterance_index = icsi_example_index and normalizable = icsi_example_root
       and loaded = "fst (projr (icsi_load_anno icsi_example_index icsi_example_root))"
       and loaded_index = "[''*'', ''*.0'']" and load_logs = "[LogInfo ''Deleting *.1'']"]
  by (simp add: ami_gap_segment ami_example_built ami_gap_built icsi_example_loaded
        has_pointer_def
        has_topic_def has_child_def icsi_gap_seg_def icsi_gap_words_def dict_get_def
        nite_id_def key_range_def example_splits plain_prims_def list_get_def load_seg_def
        xml_tag_gap_child)

end
